theory Spec2Isabelle
  imports Main "HOL-Library.AList"
begin

section \<open>The device worker pool of onnx-web (api/onnx\_web/worker/pool.py)\<close>

text \<open>
  The pool manager \<open>DevicePoolExecutor\<close> is embedded as functions over an explicit
  pool state. Python dictionaries are association lists in insertion order
  (\<open>map_of\<close> looks a key up, \<open>AList.update\<close> is \<open>d[k] = v\<close>, \<open>AList.delete\<close>
  is \<open>del d[k]\<close>). The objects the manager shares with the worker processes (the
  pending queues, the cancel flags, the processes themselves) live in stores indexed by
  a reference, so that two holders of one queue see the same jobs. A Python exception is
  an \<open>error\<close> value; an operation that changes the pool returns the outcome together
  with the pool as the call leaves it.
\<close>

subsection \<open>Data\<close>

datatype error = KeyError | IndexError | ValueError | AttributeError

text \<open>params.py, class \<open>DeviceParams\<close>.\<close>

record DeviceParams =
  device :: string
  provider :: string
  options :: "(string \<times> string) list option"

text \<open>
  A queued job is the tuple \<open>(key, fn, args, kwargs)\<close> that \<open>submit\<close> puts on a
  pending queue; the callable with its arguments is opaque to the pool and is the
  type parameter \<open>'f\<close>.
\<close>

type_synonym 'f job = "string \<times> 'f"

text \<open>
  Modelled from the spec: \<open>WorkerContext\<close> (worker/context.py is not among the
  sources). The record has the fields that \<open>create_device_worker\<close> passes to the
  constructor: the name, the device, the cancel flag (a reference to a shared
  \<open>Value\<close>) and the pending queue (a reference to a shared \<open>Queue\<close>). The
  progress, finished and logs channels are the same three objects in every context;
  they are the inputs of the listener loops below.
\<close>

record WorkerContext =
  ctx_name :: string
  ctx_device :: DeviceParams
  ctx_cancel :: nat
  ctx_pending :: nat

text \<open>
  A \<open>Process\<close> object: its identity and the context it was created with
  (\<open>args=(context, server)\<close>).
\<close>

record Process =
  pid :: nat
  proc_args :: WorkerContext

text \<open>
  The fields of \<open>DevicePoolExecutor\<close>, followed by the stores: \<open>queues\<close> maps a
  queue reference to the jobs waiting in it, \<open>flags\<close> maps a flag reference to the
  value of the shared boolean, \<open>alive\<close> is the set of processes for which
  \<open>is_alive()\<close> holds, and the three counters give the next fresh reference.
\<close>

record 'f pool =
  devices :: "DeviceParams list"
  max_jobs_per_worker :: int
  contexts :: "(string \<times> WorkerContext) list"
  pending :: "(string \<times> nat) list"
  workers :: "(string \<times> Process option) list"
  active_jobs :: "(string \<times> string \<times> int) list"
  cancelled_jobs :: "string list"
  finished_jobs :: "(string \<times> int \<times> bool) list"
  total_jobs :: int
  queues :: "nat \<Rightarrow> 'f job list"
  flags :: "nat \<Rightarrow> bool"
  alive :: "nat set"
  next_queue :: nat
  next_flag :: nat
  next_pid :: nat

type_synonym ('a, 'f) outcome = "(error + 'a) \<times> 'f pool"

subsection \<open>Creating workers\<close>

text \<open>
  \<open>create_device_worker\<close>: the queue of the device is reused when the name is in
  \<open>pending\<close>, otherwise a new empty queue is registered; a new context with a new
  cancel flag (initially false) and a new process are created and the process is started.
\<close>

definition create_device_worker :: "DeviceParams \<Rightarrow> 'f pool \<Rightarrow> 'f pool" where
  "create_device_worker dev s =
     (let name = device dev;
          s1 = (case map_of (pending s) name of
                  Some q \<Rightarrow> s
                | None \<Rightarrow> s\<lparr>pending := AList.update name (next_queue s) (pending s),
                            queues := (queues s)(next_queue s := []),
                            next_queue := Suc (next_queue s)\<rparr>);
          pq = (case map_of (pending s) name of Some q \<Rightarrow> q | None \<Rightarrow> next_queue s);
          ctx = \<lparr>ctx_name = name, ctx_device = dev,
                 ctx_cancel = next_flag s1, ctx_pending = pq\<rparr>;
          proc = \<lparr>pid = next_pid s1, proc_args = ctx\<rparr>
      in s1\<lparr>contexts := AList.update name ctx (contexts s1),
             workers := AList.update name (Some proc) (workers s1),
             flags := (flags s1)(next_flag s1 := False),
             alive := insert (next_pid s1) (alive s1),
             next_flag := Suc (next_flag s1),
             next_pid := Suc (next_pid s1)\<rparr>)"

text \<open>\<open>__init__\<close>: empty maps and lists, a zero job counter, one worker per device.\<close>

definition init_pool :: "DeviceParams list \<Rightarrow> int \<Rightarrow> 'f pool" where
  "init_pool devs max_jobs =
     fold create_device_worker devs
       \<lparr>devices = devs, max_jobs_per_worker = max_jobs, contexts = [], pending = [],
        workers = [], active_jobs = [], cancelled_jobs = [], finished_jobs = [],
        total_jobs = 0, queues = (\<lambda>_. []), flags = (\<lambda>_. False), alive = {},
        next_queue = 0, next_flag = 0, next_pid = 0\<rparr>"

subsection \<open>Device assignment\<close>

text \<open>
  \<open>collections.Counter\<close> is a dictionary from elements to counts, in insertion order.
  Counting an element adds one to its count, or appends it with count one.
\<close>

type_synonym counter = "(nat \<times> nat) list"

definition counter_incr :: "nat \<Rightarrow> counter \<Rightarrow> counter" where
  "counter_incr k c =
     AList.update k (case map_of c k of None \<Rightarrow> 1 | Some n \<Rightarrow> n + 1) c"

definition counter_update :: "nat list \<Rightarrow> counter \<Rightarrow> counter" where
  "counter_update xs c = fold counter_incr xs c"

definition Counter :: "nat list \<Rightarrow> counter" where
  "Counter xs = counter_update xs []"

text \<open>
  \<open>most_common()\<close> is \<open>sorted(items, key=itemgetter(1), reverse=True)\<close>: a stable
  sort by descending count, which CPython runs as reverse, stable ascending sort, reverse.
\<close>

definition most_common :: "counter \<Rightarrow> counter" where
  "most_common c = rev (sort_key snd (rev c))"

text \<open>The loop over \<open>range(len(self.devices))\<close> that looks for the pinned device.\<close>

fun pinned_index :: "DeviceParams list \<Rightarrow> DeviceParams \<Rightarrow> nat list \<Rightarrow> nat option" where
  "pinned_index ds nd [] = None"
| "pinned_index ds nd (i # rest) =
     (if device (ds ! i) = device nd then Some i else pinned_index ds nd rest)"

text \<open>
  The comprehension \<open>[self.pending[d.device].qsize() for d in self.devices]\<close>; a
  device without a pending queue raises \<open>KeyError\<close>.
\<close>

fun qsizes :: "'f pool \<Rightarrow> DeviceParams list \<Rightarrow> error + nat list" where
  "qsizes s [] = Inr []"
| "qsizes s (d # ds) =
     (case map_of (pending s) (device d) of
        None \<Rightarrow> Inl KeyError
      | Some q \<Rightarrow>
          (case qsizes s ds of
             Inl e \<Rightarrow> Inl e
           | Inr ns \<Rightarrow> Inr (length (queues s q) # ns)))"

text \<open>
  The rest of \<open>get_next_device\<close>, from \<open>most_common()\<close> on: the count of the
  last entry, the keys with that count, sorted, and the first of them. Indexing an empty
  list raises \<open>IndexError\<close>.
\<close>

definition select_lowest :: "counter \<Rightarrow> error + nat" where
  "select_lowest jobs =
     (let queued = most_common jobs
      in if queued = [] then Inl IndexError
         else
           let lowest_count = snd (last queued);
               lowest_devices = sort (map fst (filter (\<lambda>d. snd d = lowest_count) queued))
           in (case lowest_devices of [] \<Rightarrow> Inl IndexError | i # _ \<Rightarrow> Inr i))"

definition get_next_device :: "'f pool \<Rightarrow> DeviceParams option \<Rightarrow> error + nat" where
  "get_next_device s needs_device =
     (case (case needs_device of
              None \<Rightarrow> None
            | Some nd \<Rightarrow> pinned_index (devices s) nd [0..<length (devices s)]) of
        Some i \<Rightarrow> Inr i
      | None \<Rightarrow>
          (case qsizes s (devices s) of
             Inl e \<Rightarrow> Inl e
           | Inr ns \<Rightarrow>
               select_lowest (counter_update ns (Counter [0..<length (devices s)]))))"

subsection \<open>Recycling and submission\<close>

text \<open>
  The first loop of \<open>recycle\<close>, over the items of \<open>workers\<close>: a live process is
  joined and terminated, and the entry is set to \<open>None\<close>. An entry that is already
  \<open>None\<close> has no \<open>is_alive\<close> and raises \<open>AttributeError\<close>.
\<close>

fun stop_workers :: "(string \<times> Process option) list \<Rightarrow> 'f pool \<Rightarrow> (unit, 'f) outcome" where
  "stop_workers [] s = (Inr (), s)"
| "stop_workers ((name, None) # rest) s = (Inl AttributeError, s)"
| "stop_workers ((name, Some proc) # rest) s =
     stop_workers rest
       ((if pid proc \<in> alive s then s\<lparr>alive := alive s - {pid proc}\<rparr> else s)
          \<lparr>workers := AList.update name None
             (workers (if pid proc \<in> alive s then s\<lparr>alive := alive s - {pid proc}\<rparr> else s))\<rparr>)"

definition recycle :: "'f pool \<Rightarrow> (unit, 'f) outcome" where
  "recycle s =
     (case stop_workers (workers s) s of
        (Inl e, s1) \<Rightarrow> (Inl e, s1)
      | (Inr _, s1) \<Rightarrow> (Inr (), fold create_device_worker (devices s1) s1))"

definition submit :: "string \<Rightarrow> 'f \<Rightarrow> DeviceParams option \<Rightarrow> 'f pool \<Rightarrow> (unit, 'f) outcome" where
  "submit key fn needs_device s =
     (let s1 = s\<lparr>total_jobs := total_jobs s + 1\<rparr>;
          r = (if total_jobs s1 > max_jobs_per_worker s1
               then (case recycle s1 of
                       (Inl e, s2) \<Rightarrow> (Inl e, s2)
                     | (Inr _, s2) \<Rightarrow> (Inr (), s2\<lparr>total_jobs := 0\<rparr>))
               else (Inr (), s1))
      in case r of
           (Inl e, s3) \<Rightarrow> (Inl e, s3)
         | (Inr _, s3) \<Rightarrow>
             (case get_next_device s3 needs_device of
                Inl e \<Rightarrow> (Inl e, s3)
              | Inr device_idx \<Rightarrow>
                  if length (devices s3) \<le> device_idx then (Inl IndexError, s3)
                  else
                    (case map_of (pending s3) (device (devices s3 ! device_idx)) of
                       None \<Rightarrow> (Inl KeyError, s3)
                     | Some q \<Rightarrow>
                         (Inr (), s3\<lparr>queues := (queues s3)(q := queues s3 q @ [(key, fn)])\<rparr>))))"

text \<open>Submitting a list of jobs one after the other, stopping at the first exception.\<close>

fun submit_all :: "(string \<times> 'f \<times> DeviceParams option) list \<Rightarrow> 'f pool \<Rightarrow> (unit, 'f) outcome" where
  "submit_all [] s = (Inr (), s)"
| "submit_all ((key, fn, nd) # rest) s =
     (case submit key fn nd s of
        (Inl e, s1) \<Rightarrow> (Inl e, s1)
      | (Inr _, s1) \<Rightarrow> submit_all rest s1)"

subsection \<open>Cancellation, listeners and queries\<close>

text \<open>
  Modelled from the spec: \<open>WorkerContext.set_cancel\<close> (worker/context.py is not among
  the sources) sets the cancellation flag of the context's device.
\<close>

definition set_cancel :: "WorkerContext \<Rightarrow> 'f pool \<Rightarrow> 'f pool" where
  "set_cancel ctx s = s\<lparr>flags := (flags s)(ctx_cancel ctx := True)\<rparr>"

definition cancel :: "string \<Rightarrow> 'f pool \<Rightarrow> (bool, 'f) outcome" where
  "cancel key s =
     (let s1 = s\<lparr>cancelled_jobs := cancelled_jobs s @ [key]\<rparr>
      in case map_of (active_jobs s1) key of
           None \<Rightarrow> (Inr True, s1)
         | Some (dev, _) \<Rightarrow>
             (case map_of (contexts s1) dev of
                None \<Rightarrow> (Inl KeyError, s1)
              | Some ctx \<Rightarrow> (Inr True, set_cancel ctx s1)))"

text \<open>
  What \<open>get(timeout=...)\<close> on a channel gives a listener: a message, \<open>Empty\<close> after
  the timeout, or \<open>ValueError\<close> once the channel is closed.
\<close>

datatype 'm recv = Msg 'm | Empty | Closed

text \<open>
  The body of the \<open>try\<close> in \<open>progress_worker\<close> for a message
  \<open>(job, device, value)\<close>.
\<close>

definition progress_body :: "string \<times> string \<times> int \<Rightarrow> 'f pool \<Rightarrow> (unit, 'f) outcome" where
  "progress_body m s =
     (case m of (job, dev, val) \<Rightarrow>
        let s1 = s\<lparr>active_jobs := AList.update job (dev, val) (active_jobs s)\<rparr>
        in if job \<in> set (cancelled_jobs s1)
           then (case map_of (contexts s1) dev of
                   None \<Rightarrow> (Inl KeyError, s1)
                 | Some ctx \<Rightarrow> (Inr (), set_cancel ctx s1))
           else (Inr (), s1))"

text \<open>
  The listener loop over what the channel delivers: \<open>Empty\<close> is passed over, a closed
  channel ends the loop, and an exception of the body is logged and the loop goes on
  with the pool as the body left it. The list of deliveries bounds the run.
\<close>

fun progress_worker :: "(string \<times> string \<times> int) recv list \<Rightarrow> 'f pool \<Rightarrow> 'f pool" where
  "progress_worker [] s = s"
| "progress_worker (Empty # rest) s = progress_worker rest s"
| "progress_worker (Closed # rest) s = s"
| "progress_worker (Msg m # rest) s = progress_worker rest (snd (progress_body m s))"

text \<open>The body of the \<open>try\<close> in \<open>finished_worker\<close> for a message \<open>(job, device)\<close>.\<close>

definition finished_body :: "string \<times> string \<Rightarrow> 'f pool \<Rightarrow> (unit, 'f) outcome" where
  "finished_body m s =
     (case m of (job, dev) \<Rightarrow>
        (case map_of (contexts s) dev of
           None \<Rightarrow> (Inl KeyError, s)
         | Some ctx \<Rightarrow>
             (case map_of (active_jobs s) job of
                None \<Rightarrow> (Inl KeyError, s)
              | Some (_, progress) \<Rightarrow>
                  (Inr (), s\<lparr>finished_jobs :=
                                finished_jobs s @ [(job, progress, flags s (ctx_cancel ctx))],
                              active_jobs := AList.delete job (active_jobs s)\<rparr>))))"

fun finished_worker :: "(string \<times> string) recv list \<Rightarrow> 'f pool \<Rightarrow> 'f pool" where
  "finished_worker [] s = s"
| "finished_worker (Empty # rest) s = finished_worker rest s"
| "finished_worker (Closed # rest) s = s"
| "finished_worker (Msg m # rest) s = finished_worker rest (snd (finished_body m s))"

text \<open>\<open>done\<close>: the first finished record of the key wins, then the active map.\<close>

fun finished_progress :: "(string \<times> int \<times> bool) list \<Rightarrow> string \<Rightarrow> int option" where
  "finished_progress [] key = None"
| "finished_progress ((k, p, c) # rest) key =
     (if k = key then Some p else finished_progress rest key)"

definition done_job :: "string \<Rightarrow> 'f pool \<Rightarrow> bool option \<times> int" where
  "done_job key s =
     (case finished_progress (finished_jobs s) key of
        Some p \<Rightarrow> (Some True, p)
      | None \<Rightarrow>
          (case map_of (active_jobs s) key of
             None \<Rightarrow> (None, 0)
           | Some (_, progress) \<Rightarrow> (Some False, progress)))"

text \<open>
  \<open>status\<close>: the first comprehension unpacks each item of \<open>active_jobs.items()\<close>,
  a pair of the key and the \<open>(device, progress)\<close> tuple, into three names, which
  raises \<open>ValueError\<close> at the first item; with no active job it yields the empty list.
\<close>

fun status_active :: "(string \<times> string \<times> int) list \<Rightarrow> string list \<Rightarrow>
    error + (string \<times> int \<times> bool \<times> bool) list" where
  "status_active [] cancelled = Inr []"
| "status_active (item # rest) cancelled = Inl ValueError"

definition status :: "'f pool \<Rightarrow> error + (string \<times> int \<times> bool \<times> bool) list" where
  "status s =
     (case status_active (active_jobs s) (cancelled_jobs s) of
        Inl e \<Rightarrow> Inl e
      | Inr history \<Rightarrow>
          Inr (history @ map (\<lambda>(name, progress, cancel). (name, progress, True, cancel))
                             (finished_jobs s)))"

subsection \<open>Auxiliary notions for the statements\<close>

text \<open>The two devices of the scenarios.\<close>

definition gpu0 :: DeviceParams where
  "gpu0 = \<lparr>device = ''gpu0'', provider = ''CUDAExecutionProvider'', options = None\<rparr>"

definition gpu1 :: DeviceParams where
  "gpu1 = \<lparr>device = ''gpu1'', provider = ''CUDAExecutionProvider'', options = None\<rparr>"

text \<open>The count of a key in a counter, zero when the key is absent.\<close>

definition count_of :: "counter \<Rightarrow> nat \<Rightarrow> nat" where
  "count_of c k = (case map_of c k of None \<Rightarrow> 0 | Some n \<Rightarrow> n)"

text \<open>
  The count that \<open>get_next_device\<close> ends up with for key \<open>k\<close>, for \<open>n\<close> devices
  with queue sizes \<open>ns\<close>: one if \<open>k\<close> is a device index, plus the number of queues of
  size \<open>k\<close>.
\<close>

definition tally :: "nat \<Rightarrow> nat list \<Rightarrow> nat \<Rightarrow> nat" where
  "tally n ns k = (if k < n then 1 else 0) + count_list ns k"

text \<open>
  The state of a pool that has been constructed and not joined: there is a device, the
  keys of \<open>workers\<close> are distinct (it is a dictionary), every device has a pending
  queue and a worker entry, and every worker entry belongs to a device and holds a
  process created earlier.
\<close>

definition pool_ok :: "'f pool \<Rightarrow> bool" where
  "pool_ok s \<longleftrightarrow>
     devices s \<noteq> [] \<and>
     distinct (map fst (workers s)) \<and>
     list_all (\<lambda>d. map_of (pending s) (device d) \<noteq> None \<and>
                    map_of (workers s) (device d) \<noteq> None) (devices s) \<and>
     list_all (\<lambda>(name, w). name \<in> set (map device (devices s)) \<and>
                    (case w of None \<Rightarrow> False | Some p \<Rightarrow> pid p < next_pid s)) (workers s)"

text \<open>
  The two halves of \<open>pool_ok\<close>, for the proof that \<open>__init__\<close> establishes it:
  the worker entries are well formed with names in \<open>D\<close>, and the names in \<open>X\<close>
  have a pending queue and a worker entry.
\<close>

definition workers_ok :: "string set \<Rightarrow> 'f pool \<Rightarrow> bool" where
  "workers_ok D s \<longleftrightarrow>
     distinct (map fst (workers s)) \<and>
     (\<forall>(name, w) \<in> set (workers s). name \<in> D \<and> (\<exists>p. w = Some p \<and> pid p < next_pid s))"

definition covered :: "string set \<Rightarrow> 'f pool \<Rightarrow> bool" where
  "covered X s \<longleftrightarrow>
     (\<forall>n \<in> X. map_of (pending s) n \<noteq> None \<and> map_of (workers s) n \<noteq> None)"

text \<open>
  The worker entry \<open>name\<close> of pool \<open>s\<close> has been replaced in \<open>s'\<close>: the old process
  is not alive any more, the entry holds a running process that did not exist in \<open>s\<close>,
  and that process was created with the queue that \<open>pending\<close> had for the name in \<open>s\<close>.
\<close>

definition worker_replaced :: "'f pool \<Rightarrow> 'f pool \<Rightarrow> string \<Rightarrow> bool" where
  "worker_replaced s s' name =
     (case (map_of (workers s) name, map_of (workers s') name, map_of (pending s) name) of
        (Some (Some p), Some (Some p'), Some q) \<Rightarrow>
          pid p \<notin> alive s' \<and> pid p' \<in> alive s' \<and> next_pid s \<le> pid p' \<and>
          ctx_pending (proc_args p') = q
      | _ \<Rightarrow> False)"

text \<open>
  Three pools of the scenarios, each reached from \<open>__init__\<close> with one device:
  a job submitted and still queued; that job after one progress update and its finished
  message; two jobs submitted, each with one progress update.
\<close>

definition job1_queued :: "unit pool" where
  "job1_queued = snd (submit ''job-1'' () None (init_pool [gpu0] 10))"

definition job1_finished :: "unit pool" where
  "job1_finished =
     finished_worker [Msg (''job-1'', ''gpu0'')]
       (progress_worker [Msg (''job-1'', ''gpu0'', 5)] job1_queued)"

definition two_active :: "unit pool" where
  "two_active =
     progress_worker [Msg (''job-1'', ''gpu0'', 3), Msg (''job-2'', ''gpu0'', 1)]
       (snd (submit_all [(''job-1'', (), None), (''job-2'', (), None)] (init_pool [gpu0] 10)))"

section \<open>Properties\<close>

subsection \<open>The counter of \<open>get_next_device\<close>\<close>

lemma map_of_counter_incr:
  "map_of (counter_incr k c) = (map_of c)(k \<mapsto> Suc (count_of c k))"
  by (simp add: counter_incr_def count_of_def update_conv' split: option.splits)

lemma distinct_counter_incr:
  "distinct (map fst c) \<Longrightarrow> distinct (map fst (counter_incr k c))"
  by (simp add: counter_incr_def distinct_update)

lemma distinct_counter_update:
  "distinct (map fst c) \<Longrightarrow> distinct (map fst (counter_update xs c))"
  unfolding counter_update_def
  by (induction xs arbitrary: c) (simp_all add: distinct_counter_incr)

lemma map_of_counter_update:
  "map_of (counter_update xs c) k =
     (if k \<in> set xs then Some (count_list xs k + count_of c k) else map_of c k)"
  unfolding counter_update_def
proof (induction xs arbitrary: c)
  case Nil
  then show ?case by simp
next
  case (Cons x xs)
  show ?case
    by (simp add: Cons.IH map_of_counter_incr count_of_def)
qed

lemma count_list_upt: "count_list [0..<n] k = (if k < n then 1 else 0)"
  by (induction n) auto

lemma map_of_Counter_upt:
  "map_of (Counter [0..<n]) k = (if k < n then Some 1 else None)"
  by (simp add: Counter_def map_of_counter_update count_list_upt count_of_def)

lemma map_of_jobs:
  "map_of (counter_update ns (Counter [0..<n])) k =
     (if k < n \<or> k \<in> set ns then Some (tally n ns k) else None)"
  by (auto simp add: map_of_counter_update map_of_Counter_upt count_of_def tally_def)

lemma distinct_jobs: "distinct (map fst (counter_update ns (Counter [0..<n])))"
  by (simp add: Counter_def distinct_counter_update)

lemma jobs_member:
  "(k, v) \<in> set (counter_update ns (Counter [0..<n])) \<longleftrightarrow>
     (k < n \<or> k \<in> set ns) \<and> v = tally n ns k"
  using map_of_eq_Some_iff [OF distinct_jobs, of ns n k v]
  by (auto simp add: map_of_jobs split: if_splits)

lemma set_most_common: "set (most_common c) = set c"
  by (simp add: most_common_def)

lemma sorted_hd_le: "sorted ys \<Longrightarrow> y \<in> set ys \<Longrightarrow> hd ys \<le> y"
  by (cases ys) auto

lemma last_most_common_least:
  assumes "x \<in> set c"
  shows "snd (last (most_common c)) \<le> snd x"
proof -
  have ne: "sort_key snd (rev c) \<noteq> []"
    using assms by (metis empty_iff length_0_conv length_sort list.set(1) set_rev)
  have "last (most_common c) = hd (sort_key snd (rev c))"
    by (simp add: most_common_def last_rev)
  then have "snd (last (most_common c)) = hd (map snd (sort_key snd (rev c)))"
    using ne by (simp add: hd_map)
  moreover have "sorted (map snd (sort_key snd (rev c)))"
    by (rule sorted_sort_key)
  moreover have "snd x \<in> set (map snd (sort_key snd (rev c)))"
    using assms by simp
  ultimately show ?thesis
    using sorted_hd_le by metis
qed

lemma last_most_common_mem: "c \<noteq> [] \<Longrightarrow> last (most_common c) \<in> set c"
proof -
  assume "c \<noteq> []"
  then have "most_common c \<noteq> []"
    by (metis set_most_common set_empty)
  then have "last (most_common c) \<in> set (most_common c)"
    by (rule last_in_set)
  then show ?thesis by (simp only: set_most_common)
qed

lemma hd_sort_mem: "ys \<noteq> [] \<Longrightarrow> hd (sort ys) \<in> set (ys :: nat list)"
  by (metis hd_in_set set_sort set_empty)

lemma hd_sort_le: "y \<in> set ys \<Longrightarrow> hd (sort ys) \<le> (y :: nat)"
  using sorted_hd_le [of "sort ys" y] by simp

lemma select_lowest_spec:
  assumes "c \<noteq> []"
  shows "\<exists>r m. select_lowest c = Inr r \<and> (r, m) \<in> set c \<and>
           (\<forall>x \<in> set c. m \<le> snd x) \<and> (\<forall>k. (k, m) \<in> set c \<longrightarrow> r \<le> k)"
proof -
  define queued where "queued = most_common c"
  define m where "m = snd (last queued)"
  define cands where "cands = map fst (filter (\<lambda>d. snd d = m) queued)"
  have qne: "queued \<noteq> []"
    using assms by (metis queued_def set_most_common set_empty)
  have lastmem: "last queued \<in> set c"
    using assms by (simp add: queued_def last_most_common_mem)
  have least: "\<forall>x \<in> set c. m \<le> snd x"
    by (simp add: m_def queued_def last_most_common_least)
  have cands_set: "set cands = {k. (k, m) \<in> set c}"
    by (force simp add: cands_def queued_def set_most_common)
  have "fst (last queued) \<in> set cands"
    using lastmem by (simp add: cands_set m_def)
  then have cne: "cands \<noteq> []" by auto
  then have sne: "sort cands \<noteq> []"
    by (metis length_0_conv length_sort)
  then obtain r rest where r: "sort cands = r # rest"
    by (cases "sort cands") auto
  then have hd: "r = hd (sort cands)" by simp
  have "r \<in> set cands" using hd hd_sort_mem [OF cne] by simp
  then have rm: "(r, m) \<in> set c" by (simp add: cands_set)
  have rle: "\<forall>k. (k, m) \<in> set c \<longrightarrow> r \<le> k"
    using hd hd_sort_le [of _ cands] by (simp add: cands_set)
  have "select_lowest c = Inr r"
    using qne r by (simp add: select_lowest_def Let_def queued_def [symmetric] m_def [symmetric] cands_def [symmetric])
  with rm least rle show ?thesis by blast
qed

lemma jobs_nonempty: "0 < n \<Longrightarrow> counter_update ns (Counter [0..<n]) \<noteq> []"
  using jobs_member [of 0 "tally n ns 0" ns n] by auto

lemma lowest_device_spec:
  assumes "0 < n"
  shows "\<exists>r. select_lowest (counter_update ns (Counter [0..<n])) = Inr r \<and> (r < n \<or> r \<in> set ns) \<and>
           (\<forall>k. k < n \<or> k \<in> set ns \<longrightarrow> tally n ns r \<le> tally n ns k) \<and>
           (\<forall>k. (k < n \<or> k \<in> set ns) \<and> tally n ns k = tally n ns r \<longrightarrow> r \<le> k)"
proof -
  let ?c = "counter_update ns (Counter [0..<n])"
  from select_lowest_spec [OF jobs_nonempty [OF assms, of ns]]
  obtain r m where sel: "select_lowest ?c = Inr r" and rm: "(r, m) \<in> set ?c"
    and least: "\<forall>x \<in> set ?c. m \<le> snd x" and low: "\<forall>k. (k, m) \<in> set ?c \<longrightarrow> r \<le> k"
    by blast
  from rm have rkey: "r < n \<or> r \<in> set ns" and m: "m = tally n ns r"
    by (simp_all add: jobs_member)
  have a: "\<forall>k. k < n \<or> k \<in> set ns \<longrightarrow> tally n ns r \<le> tally n ns k"
  proof (intro allI impI)
    fix k assume "k < n \<or> k \<in> set ns"
    then have "(k, tally n ns k) \<in> set ?c" by (simp add: jobs_member)
    with least have "m \<le> snd (k, tally n ns k)" by blast
    then show "tally n ns r \<le> tally n ns k" by (simp add: m)
  qed
  have b: "\<forall>k. (k < n \<or> k \<in> set ns) \<and> tally n ns k = tally n ns r \<longrightarrow> r \<le> k"
  proof (intro allI impI)
    fix k assume "(k < n \<or> k \<in> set ns) \<and> tally n ns k = tally n ns r"
    then have "(k, m) \<in> set ?c" by (simp add: jobs_member m)
    with low show "r \<le> k" by blast
  qed
  from sel rkey a b show ?thesis by blast
qed

lemma lowest_device_in_range:
  assumes "0 < n" and "length ns = n"
  shows "\<exists>r. select_lowest (counter_update ns (Counter [0..<n])) = Inr r \<and> r < n"
proof -
  from lowest_device_spec [OF assms(1), of ns]
  obtain r where res: "select_lowest (counter_update ns (Counter [0..<n])) = Inr r" and rkey: "r < n \<or> r \<in> set ns"
    and least: "\<forall>k. k < n \<or> k \<in> set ns \<longrightarrow> tally n ns r \<le> tally n ns k"
    and low: "\<forall>k. (k < n \<or> k \<in> set ns) \<and> tally n ns k = tally n ns r \<longrightarrow> r \<le> k"
    by blast
  have "r < n"
  proof (rule ccontr)
    assume "\<not> r < n"
    then have rn: "n \<le> r" and rin: "r \<in> set ns" using rkey by auto
    define m where "m = count_list ns r"
    have mpos: "0 < m" using rin count_list_0_iff [of ns r] by (simp add: m_def)
    have tr: "tally n ns r = m" using rn by (simp add: tally_def m_def)
    have each: "m \<le> count_list ns i" if "i < n" for i
    proof -
      have "tally n ns r \<le> tally n ns i" using least that by blast
      moreover have "tally n ns i \<noteq> tally n ns r"
        using low that rn by (metis not_less order.strict_trans2 leD)
      ultimately have "m < tally n ns i" using tr by simp
      then show ?thesis using that by (simp add: tally_def)
    qed
    have "n * m \<le> (\<Sum>i\<in>{..<n}. count_list ns i)"
      using sum_mono [of "{..<n}" "\<lambda>_. m" "count_list ns"] each by simp
    moreover have "(\<Sum>i\<in>{..<n}. count_list ns i) + count_list ns r
                     = (\<Sum>i\<in>insert r {..<n}. count_list ns i)"
      using rn by simp
    moreover have "(\<Sum>i\<in>insert r {..<n}. count_list ns i)
                     \<le> (\<Sum>i\<in>set ns \<union> insert r {..<n}. count_list ns i)"
      by (rule sum_mono2) auto
    moreover have "(\<Sum>i\<in>set ns \<union> insert r {..<n}. count_list ns i) = length ns"
      by (rule sum_count_set) auto
    ultimately have "n * m + m \<le> n" using assms(2) by (simp add: m_def)
    moreover have "n \<le> n * m" using mpos by simp
    ultimately show False using mpos by linarith
  qed
  with res show ?thesis by blast
qed

text \<open>
  With two or more devices and every queue empty, the selection is index 1: the queue
  size 0 is counted under key 0, which then has the highest count.
\<close>

lemma count_list_replicate_eq:
  "count_list (replicate n x) y = (if y = x then n else 0)"
  by (induction n) auto

lemma select_lowest_all_empty:
  assumes "2 \<le> n"
  shows "select_lowest (counter_update (replicate n 0) (Counter [0..<n])) = Inr 1"
proof -
  let ?ns = "replicate n (0::nat)"
  from assms have pos: "0 < n" by simp
  from lowest_device_spec [OF pos, of ?ns] obtain r where
    res: "select_lowest (counter_update ?ns (Counter [0..<n])) = Inr r"
    and key: "r < n \<or> r \<in> set ?ns"
    and least: "\<forall>k. k < n \<or> k \<in> set ?ns \<longrightarrow> tally n ?ns r \<le> tally n ?ns k"
    and low: "\<forall>k. (k < n \<or> k \<in> set ?ns) \<and> tally n ?ns k = tally n ?ns r \<longrightarrow> r \<le> k"
    by (elim exE conjE) (rule that)
  have t0: "tally n ?ns 0 = Suc n" using pos by (simp add: tally_def count_list_replicate_eq)
  have t1: "tally n ?ns 1 = 1" using assms by (simp add: tally_def count_list_replicate_eq)
  from key pos have rn: "r < n" by auto
  from assms have one: "(1::nat) < n" by simp
  from least one have "tally n ?ns r \<le> tally n ?ns 1" by blast
  then have le: "tally n ?ns r \<le> 1" by (simp only: t1)
  have "r \<noteq> 0"
  proof
    assume "r = 0"
    with le t0 have "Suc n \<le> 1" by simp
    with assms show False by simp
  qed
  moreover have "tally n ?ns r = 1" using le rn by (simp add: tally_def)
  with low one t1 have "r \<le> 1" by metis
  ultimately have "r = 1" by simp
  with res show ?thesis by simp
qed

subsection \<open>Starting and stopping workers\<close>

lemma create_device_worker_known:
  assumes "map_of (pending s) (device d) = Some q"
  shows "create_device_worker d s =
     s\<lparr>contexts := AList.update (device d)
                     \<lparr>ctx_name = device d, ctx_device = d,
                      ctx_cancel = next_flag s, ctx_pending = q\<rparr> (contexts s),
       workers := AList.update (device d)
                    (Some \<lparr>pid = next_pid s,
                           proc_args = \<lparr>ctx_name = device d, ctx_device = d,
                                        ctx_cancel = next_flag s, ctx_pending = q\<rparr>\<rparr>)
                    (workers s),
       flags := (flags s)(next_flag s := False),
       alive := insert (next_pid s) (alive s),
       next_flag := Suc (next_flag s),
       next_pid := Suc (next_pid s)\<rparr>"
  using assms by (simp add: create_device_worker_def Let_def)

lemma start_workers_known:
  assumes "\<forall>d \<in> set ds. map_of (pending s) (device d) \<noteq> None"
  shows "\<exists>C W F nf.
     fold create_device_worker ds s =
       s\<lparr>contexts := C, workers := W, flags := F,
         alive := alive s \<union> {next_pid s ..< next_pid s + length ds},
         next_flag := nf, next_pid := next_pid s + length ds\<rparr> \<and>
     (\<forall>name. name \<notin> device ` set ds \<longrightarrow> map_of W name = map_of (workers s) name) \<and>
     (\<forall>d \<in> set ds. \<exists>p. map_of W (device d) = Some (Some p) \<and> next_pid s \<le> pid p \<and>
         pid p < next_pid s + length ds \<and>
         map_of (pending s) (device d) = Some (ctx_pending (proc_args p))) \<and>
     fst ` set W = fst ` set (workers s) \<union> device ` set ds"
  using assms
proof (induction ds arbitrary: s)
  case Nil
  have "s = s\<lparr>contexts := contexts s, workers := workers s, flags := flags s,
         alive := alive s \<union> {next_pid s ..< next_pid s + length ([] :: DeviceParams list)},
         next_flag := next_flag s, next_pid := next_pid s + length ([] :: DeviceParams list)\<rparr>"
    by simp
  then show ?case by (intro exI [where x = "contexts s"] exI [where x = "workers s"] exI [where x = "flags s"] exI [where x = "next_flag s"]) auto
next
  case (Cons d ds)
  from Cons.prems obtain q where q: "map_of (pending s) (device d) = Some q" by auto
  define s1 where "s1 = create_device_worker d s"
  define p0 where "p0 = \<lparr>pid = next_pid s,
                           proc_args = \<lparr>ctx_name = device d, ctx_device = d,
                                        ctx_cancel = next_flag s, ctx_pending = q\<rparr>\<rparr>"
  have s1: "s1 = s\<lparr>contexts := AList.update (device d) (proc_args p0) (contexts s),
       workers := AList.update (device d) (Some p0) (workers s),
       flags := (flags s)(next_flag s := False), alive := insert (next_pid s) (alive s),
       next_flag := Suc (next_flag s), next_pid := Suc (next_pid s)\<rparr>"
    unfolding s1_def p0_def by (simp add: create_device_worker_known [OF q])
  have pend1: "pending s1 = pending s" and np1: "next_pid s1 = Suc (next_pid s)"
    and al1: "alive s1 = insert (next_pid s) (alive s)"
    and w1: "workers s1 = AList.update (device d) (Some p0) (workers s)"
    by (simp_all add: s1)
  have "\<forall>d \<in> set ds. map_of (pending s1) (device d) \<noteq> None"
    using Cons.prems by (simp add: pend1)
  from Cons.IH [OF this] obtain C W F nf where
    eq: "fold create_device_worker ds s1 =
       s1\<lparr>contexts := C, workers := W, flags := F,
         alive := alive s1 \<union> {next_pid s1 ..< next_pid s1 + length ds},
         next_flag := nf, next_pid := next_pid s1 + length ds\<rparr>"
    and keep: "\<forall>name. name \<notin> device ` set ds \<longrightarrow> map_of W name = map_of (workers s1) name"
    and new: "\<forall>d \<in> set ds. \<exists>p. map_of W (device d) = Some (Some p) \<and> next_pid s1 \<le> pid p \<and>
         pid p < next_pid s1 + length ds \<and>
         map_of (pending s1) (device d) = Some (ctx_pending (proc_args p))"
    and dom: "fst ` set W = fst ` set (workers s1) \<union> device ` set ds"
    by (elim exE conjE) (rule that)
  have al: "alive s1 \<union> {next_pid s1 ..< next_pid s1 + length ds}
              = alive s \<union> {next_pid s ..< next_pid s + length (d # ds)}"
    by (auto simp add: al1 np1)
  have A: "fold create_device_worker (d # ds) s =
       s\<lparr>contexts := C, workers := W, flags := F,
         alive := alive s \<union> {next_pid s ..< next_pid s + length (d # ds)},
         next_flag := nf, next_pid := next_pid s + length (d # ds)\<rparr>"
    by (simp only: fold_simps s1_def [symmetric] eq al) (simp add: s1)
  have B: "\<forall>name. name \<notin> device ` set (d # ds) \<longrightarrow> map_of W name = map_of (workers s) name"
    using keep by (simp add: w1 update_conv')
  have C: "\<exists>p. map_of W (device e) = Some (Some p) \<and> next_pid s \<le> pid p \<and>
         pid p < next_pid s + length (d # ds) \<and>
         map_of (pending s) (device e) = Some (ctx_pending (proc_args p))"
    if e: "e \<in> set (d # ds)" for e
  proof (cases "device e \<in> device ` set ds")
    case True
    then obtain e' where "e' \<in> set ds" and "device e' = device e" by auto
    with new obtain p where "map_of W (device e) = Some (Some p)" "next_pid s1 \<le> pid p"
      "pid p < next_pid s1 + length ds" "map_of (pending s1) (device e) = Some (ctx_pending (proc_args p))"
      by metis
    then show ?thesis by (auto simp add: np1 pend1)
  next
    case False
    then have ed: "device e = device d" using e by auto
    from False keep have "map_of W (device e) = map_of (workers s1) (device e)" by blast
    then have "map_of W (device e) = Some (Some p0)"
      by (simp add: w1 update_conv' ed)
    moreover have "pid p0 = next_pid s" "ctx_pending (proc_args p0) = q"
      by (simp_all add: p0_def)
    ultimately show ?thesis using q by (auto simp add: ed)
  qed
  have D: "fst ` set W = fst ` set (workers s) \<union> device ` set (d # ds)"
    using dom by (auto simp add: w1 dom_update)
  from C have C': "\<forall>e \<in> set (d # ds). \<exists>p. map_of W (device e) = Some (Some p) \<and> next_pid s \<le> pid p \<and>
         pid p < next_pid s + length (d # ds) \<and>
         map_of (pending s) (device e) = Some (ctx_pending (proc_args p))" by (rule ballI)
  show ?case
    by (intro exI conjI) (rule A, rule B, rule C', rule D)
qed

lemma stop_workers_known:
  assumes "list_all (\<lambda>(name, w). w \<noteq> None) ws"
  shows "\<exists>W. stop_workers ws s =
            (Inr (), s\<lparr>workers := W,
                       alive := alive s - {i. \<exists>name p. (name, Some p) \<in> set ws \<and> pid p = i}\<rparr>) \<and>
          fst ` set W = fst ` set (workers s) \<union> fst ` set ws"
  using assms
proof (induction ws arbitrary: s)
  case Nil
  have "s = s\<lparr>workers := workers s, alive := alive s - {}\<rparr>" by simp
  then show ?case by (intro exI [where x = "workers s"]) auto
next
  case (Cons a ws)
  obtain name w where a: "a = (name, w)" by (cases a)
  with Cons.prems obtain proc where w: "w = Some proc" by auto
  define s1 where "s1 = s\<lparr>alive := alive s - {pid proc},
                         workers := AList.update name None (workers s)\<rparr>"
  have step: "stop_workers (a # ws) s = stop_workers ws s1"
    by (auto simp add: a w s1_def intro!: arg_cong [where f = "stop_workers ws"])
  from Cons.prems have "list_all (\<lambda>(name, w). w \<noteq> None) ws" by simp
  from Cons.IH [OF this, of s1] obtain W where
    eq: "stop_workers ws s1 =
            (Inr (), s1\<lparr>workers := W,
                       alive := alive s1 - {i. \<exists>name p. (name, Some p) \<in> set ws \<and> pid p = i}\<rparr>)"
    and dom: "fst ` set W = fst ` set (workers s1) \<union> fst ` set ws"
    by (elim exE conjE) (rule that)
  have al: "alive s1 - {i. \<exists>name p. (name, Some p) \<in> set ws \<and> pid p = i}
          = alive s - {i. \<exists>name p. (name, Some p) \<in> set (a # ws) \<and> pid p = i}"
    by (auto simp add: s1_def a w)
  have "stop_workers (a # ws) s =
            (Inr (), s\<lparr>workers := W,
                       alive := alive s - {i. \<exists>name p. (name, Some p) \<in> set (a # ws) \<and> pid p = i}\<rparr>)"
    by (simp only: step eq al) (simp add: s1_def)
  moreover have "fst ` set W = fst ` set (workers s) \<union> fst ` set (a # ws)"
    using dom by (auto simp add: s1_def a dom_update)
  ultimately show ?case by (intro exI conjI)
qed

subsection \<open>Device assignment stays in range\<close>

lemma qsizes_known:
  assumes "\<forall>d \<in> set ds. map_of (pending s) (device d) \<noteq> None"
  shows "\<exists>ns. qsizes s ds = Inr ns \<and> length ns = length ds"
  using assms by (induction ds) auto

lemma pinned_index_mem: "pinned_index ds nd is = Some i \<Longrightarrow> i \<in> set is"
  by (induction "is") (auto split: if_splits)


lemma get_next_device_range:
  assumes "devices s \<noteq> []"
    and "\<forall>d \<in> set (devices s). map_of (pending s) (device d) \<noteq> None"
  shows "\<exists>i. get_next_device s needs_device = Inr i \<and> i < length (devices s)"
proof (cases "case needs_device of None \<Rightarrow> None
               | Some nd \<Rightarrow> pinned_index (devices s) nd [0..<length (devices s)]")
  case (Some i)
  then obtain nd where "pinned_index (devices s) nd [0..<length (devices s)] = Some i"
    by (cases needs_device) auto
  then have "i < length (devices s)"
    using pinned_index_mem by fastforce
  with Some show ?thesis by (simp add: get_next_device_def)
next
  case None
  from qsizes_known [OF assms(2)] obtain ns where
    ns: "qsizes s (devices s) = Inr ns" "length ns = length (devices s)" by blast
  from assms(1) have "0 < length (devices s)" by simp
  from lowest_device_in_range [OF this ns(2)] None ns(1)
  show ?thesis by (simp add: get_next_device_def)
qed


text \<open>
  C9. In a pool with at least one device and a pending queue for every device,
  \<open>get_next_device\<close>, with or without a pinned device, does not raise and returns an
  index below the number of devices, although the counter has queue sizes as well as
  device indices among its keys.
\<close>

theorem get_next_device_in_range:
  assumes "devices s \<noteq> []"
    and "\<forall>d \<in> set (devices s). map_of (pending s) (device d) \<noteq> None"
  shows "\<exists>i. get_next_device s needs_device = Inr i \<and> i < length (devices s)"
  using assms by (rule get_next_device_range)

theorem get_next_device_in_range_witness:
  "devices (init_pool [gpu0, gpu1] 10 :: unit pool) \<noteq> [] \<and>
   list_all (\<lambda>d. map_of (pending (init_pool [gpu0, gpu1] 10 :: unit pool)) (device d) \<noteq> None)
     (devices (init_pool [gpu0, gpu1] 10 :: unit pool)) \<and>
   (\<exists>i. get_next_device (init_pool [gpu0, gpu1] 10 :: unit pool) (Some gpu1) = Inr i \<and>
        i < length (devices (init_pool [gpu0, gpu1] 10 :: unit pool)))"
  using get_next_device_in_range [of "init_pool [gpu0, gpu1] 10 :: unit pool" "Some gpu1"]
  by (simp add: init_pool_def create_device_worker_def gpu0_def gpu1_def Let_def)

text \<open>
  C1. Two devices with empty pending queues, as \<open>__init__\<close> leaves them: both queue
  depths are equal, and \<open>get_next_device\<close> without a pin returns index 1, not the
  lowest index 0. The queue size 0 is counted under the key 0, so index 0 no longer has
  the lowest count.
\<close>

theorem get_next_device_idle_pair:
  "qsizes (init_pool [gpu0, gpu1] 10 :: unit pool) [gpu0, gpu1] = Inr [0, 0] \<and>
   get_next_device (init_pool [gpu0, gpu1] 10 :: unit pool) None = Inr 1"
  by (simp add: get_next_device_def select_lowest_def counter_update_def Counter_def
      counter_incr_def most_common_def init_pool_def create_device_worker_def
      gpu0_def gpu1_def Let_def upt_rec)

text \<open>
  C4. After three submissions without a pin to an idle pool of two devices the queues
  hold two jobs and one job, and \<open>get_next_device\<close> without a pin returns index 0,
  the device with the longer queue.
\<close>

theorem get_next_device_longer_queue:
  "qsizes (snd (submit_all [(''a'', (), None), (''b'', (), None), (''c'', (), None)]
                 (init_pool [gpu0, gpu1] 10 :: unit pool))) [gpu0, gpu1] = Inr [2, 1] \<and>
   get_next_device (snd (submit_all [(''a'', (), None), (''b'', (), None), (''c'', (), None)]
                 (init_pool [gpu0, gpu1] 10 :: unit pool))) None = Inr 0"
  by code_simp

subsection \<open>Recycling\<close>

lemma distinct_workers_create:
  "distinct (map fst (workers s)) \<Longrightarrow> distinct (map fst (workers (create_device_worker d s)))"
  by (simp add: create_device_worker_def Let_def distinct_update split: option.splits)

lemma distinct_workers_start:
  "distinct (map fst (workers s)) \<Longrightarrow>
     distinct (map fst (workers (fold create_device_worker ds s)))"
  by (induction ds arbitrary: s) (simp_all add: distinct_workers_create)

lemma distinct_workers_stop:
  "distinct (map fst (workers s)) \<Longrightarrow> distinct (map fst (workers (snd (stop_workers ws s))))"
proof (induction ws s rule: stop_workers.induct)
  case (1 s)
  then show ?case by simp
next
  case (2 name rest s)
  then show ?case by simp
next
  case (3 name proc rest s)
  then show ?case by (simp add: distinct_update)
qed

lemma pool_ok_entry:
  assumes "pool_ok s" and "(name, w) \<in> set (workers s)"
  shows "name \<in> device ` set (devices s) \<and> (\<exists>p. w = Some p \<and> pid p < next_pid s)"
  using assms by (auto simp add: pool_ok_def list_all_iff split: option.splits)

lemma pool_ok_device:
  assumes "pool_ok s" and "d \<in> set (devices s)"
  shows "map_of (pending s) (device d) \<noteq> None"
  using assms by (auto simp add: pool_ok_def list_all_iff)

lemma recycle_known:
  assumes ok: "pool_ok s"
  shows "\<exists>C W F A nf np.
     recycle s = (Inr (), s\<lparr>contexts := C, workers := W, flags := F, alive := A,
                             next_flag := nf, next_pid := np\<rparr>) \<and>
     (\<forall>name \<in> fst ` set (workers s).
        worker_replaced s (s\<lparr>contexts := C, workers := W, flags := F, alive := A,
                             next_flag := nf, next_pid := np\<rparr>) name) \<and>
     pool_ok (s\<lparr>contexts := C, workers := W, flags := F, alive := A,
                             next_flag := nf, next_pid := np\<rparr>)"
proof -
  have dist: "distinct (map fst (workers s))" using ok by (simp add: pool_ok_def)
  let ?old = "{i. \<exists>name p. (name, Some p) \<in> set (workers s) \<and> pid p = i}"
  have somes: "list_all (\<lambda>(name, w). w \<noteq> None) (workers s)"
    using pool_ok_entry [OF ok] by (fastforce simp add: list_all_iff)
  from stop_workers_known [OF somes, of s] obtain W1 where
    stop: "stop_workers (workers s) s = (Inr (), s\<lparr>workers := W1, alive := alive s - ?old\<rparr>)"
    and dom1: "fst ` set W1 = fst ` set (workers s) \<union> fst ` set (workers s)"
    by (elim exE conjE) (rule that)
  define s1 where "s1 = s\<lparr>workers := W1, alive := alive s - ?old\<rparr>"
  have d1: "distinct (map fst (workers s1))"
    using distinct_workers_stop [OF dist, of "workers s"] by (simp add: stop s1_def)
  have pend: "\<forall>d \<in> set (devices s1). map_of (pending s1) (device d) \<noteq> None"
    using pool_ok_device [OF ok] by (simp add: s1_def)
  define n where "n = length (devices s)"
  from start_workers_known [OF pend] obtain C W F nf where
    start: "fold create_device_worker (devices s1) s1 =
       s1\<lparr>contexts := C, workers := W, flags := F,
         alive := alive s1 \<union> {next_pid s1 ..< next_pid s1 + length (devices s1)},
         next_flag := nf, next_pid := next_pid s1 + length (devices s1)\<rparr>"
    and new: "\<forall>d \<in> set (devices s1). \<exists>p. map_of W (device d) = Some (Some p) \<and>
         next_pid s1 \<le> pid p \<and> pid p < next_pid s1 + length (devices s1) \<and>
         map_of (pending s1) (device d) = Some (ctx_pending (proc_args p))"
    and dom: "fst ` set W = fst ` set (workers s1) \<union> device ` set (devices s1)"
    by (elim exE conjE) (rule that)
  define A where "A = alive s - ?old \<union> {next_pid s ..< next_pid s + n}"
  define s2 where "s2 = s\<lparr>contexts := C, workers := W, flags := F, alive := A,
                             next_flag := nf, next_pid := next_pid s + n\<rparr>"
  have s2: "fold create_device_worker (devices s1) s1 = s2"
    by (simp only: start) (simp add: s1_def s2_def A_def n_def)
  have rec: "recycle s = (Inr (), s2)"
    by (simp add: recycle_def stop s1_def [symmetric] s2)
  have new': "\<exists>p. map_of W (device d) = Some (Some p) \<and>
         next_pid s \<le> pid p \<and> pid p < next_pid s + n \<and>
         map_of (pending s) (device d) = Some (ctx_pending (proc_args p))"
    if "d \<in> set (devices s)" for d
    using new that by (simp add: s1_def n_def)
  have dW: "distinct (map fst W)"
    using distinct_workers_start [OF d1, of "devices s1"] by (simp add: s2 s2_def)
  have domW: "fst ` set W = device ` set (devices s)"
  proof -
    have "fst ` set (workers s) \<subseteq> device ` set (devices s)"
      using pool_ok_entry [OF ok] by fastforce
    then show ?thesis using dom dom1 by (auto simp add: s1_def)
  qed
  have repl: "worker_replaced s s2 name" if nm: "name \<in> fst ` set (workers s)" for name
  proof -
    from nm obtain w where mem: "(name, w) \<in> set (workers s)" by auto
    from pool_ok_entry [OF ok mem] obtain p d where
      p: "w = Some p" "pid p < next_pid s" and d: "d \<in> set (devices s)" "name = device d"
      by auto
    have old: "map_of (workers s) name = Some (Some p)"
      using dist mem p(1) by simp
    from new' [OF d(1)] obtain p' where
      p': "map_of W name = Some (Some p')" "next_pid s \<le> pid p'" "pid p' < next_pid s + n"
        "map_of (pending s) name = Some (ctx_pending (proc_args p'))"
      using d(2) by auto
    have "pid p \<in> ?old" using mem p(1) by auto
    then have gone: "pid p \<notin> A" using p(2) by (auto simp add: A_def)
    have here: "pid p' \<in> A" using p'(2,3) by (simp add: A_def)
    show ?thesis
      using old p' gone here by (simp add: worker_replaced_def s2_def)
  qed
  have ok2: "pool_ok s2"
  proof -
    have a: "devices s2 \<noteq> []" using ok by (simp add: pool_ok_def s2_def)
    have b: "map_of (pending s2) (device d) \<noteq> None \<and> map_of (workers s2) (device d) \<noteq> None"
      if "d \<in> set (devices s2)" for d
      using new' [of d] that pool_ok_device [OF ok, of d] by (auto simp add: s2_def)
    have c: "name \<in> set (map device (devices s2)) \<and>
             (case w of None \<Rightarrow> False | Some p \<Rightarrow> pid p < next_pid s2)"
      if "(name, w) \<in> set (workers s2)" for name w
    proof -
      from that have mem: "(name, w) \<in> set W" by (simp add: s2_def)
      then have "name \<in> fst ` set W" by force
      then obtain d where d: "d \<in> set (devices s)" "name = device d"
        using domW by auto
      from new' [OF d(1)] obtain p where p: "map_of W name = Some (Some p)" "pid p < next_pid s + n"
        using d(2) by auto
      have "map_of W name = Some w" using dW mem by simp
      with p have "w = Some p" by simp
      then show ?thesis using p(2) d by (simp add: s2_def)
    qed
    have e: "distinct (map fst (workers s2))" using dW by (simp add: s2_def)
    show ?thesis
      unfolding pool_ok_def list_all_iff using a b c e by blast
  qed
  have "recycle s = (Inr (), s\<lparr>contexts := C, workers := W, flags := F, alive := A,
                             next_flag := nf, next_pid := next_pid s + n\<rparr>) \<and>
     (\<forall>name \<in> fst ` set (workers s).
        worker_replaced s (s\<lparr>contexts := C, workers := W, flags := F, alive := A,
                             next_flag := nf, next_pid := next_pid s + n\<rparr>) name) \<and>
     pool_ok (s\<lparr>contexts := C, workers := W, flags := F, alive := A,
                             next_flag := nf, next_pid := next_pid s + n\<rparr>)"
    using rec repl ok2 unfolding s2_def by (intro conjI ballI)
  then show ?thesis by (intro exI)
qed


lemma pool_ok_frame:
  assumes "devices s' = devices s" and "workers s' = workers s"
    and "pending s' = pending s" and "next_pid s' = next_pid s"
  shows "pool_ok s' = pool_ok s"
  unfolding pool_ok_def by (simp only: assms)

lemma worker_replaced_frame:
  assumes "workers t = workers s" and "pending t = pending s" and "next_pid t = next_pid s"
    and "workers t' = workers s'" and "alive t' = alive s'"
  shows "worker_replaced t t' name = worker_replaced s s' name"
  unfolding worker_replaced_def by (simp only: assms)

lemma submit_below_threshold:
  assumes ok: "pool_ok s" and below: "total_jobs s + 1 \<le> max_jobs_per_worker s"
  shows "\<exists>Q. submit key fn nd s = (Inr (), s\<lparr>total_jobs := total_jobs s + 1, queues := Q\<rparr>)"
proof -
  define s1 where "s1 = s\<lparr>total_jobs := total_jobs s + 1\<rparr>"
  have ok1: "pool_ok s1" using ok pool_ok_frame [of s1 s] by (simp add: s1_def)
  have ne: "devices s1 \<noteq> []" using ok1 by (simp add: pool_ok_def)
  have pend: "\<forall>d \<in> set (devices s1). map_of (pending s1) (device d) \<noteq> None"
    using pool_ok_device [OF ok1] by blast
  from get_next_device_range [OF ne pend, of nd] obtain i where
    i: "get_next_device s1 nd = Inr i" "i < length (devices s1)" by blast
  then have "devices s1 ! i \<in> set (devices s1)" by simp
  with pend obtain q where q: "map_of (pending s1) (device (devices s1 ! i)) = Some q" by blast
  have "submit key fn nd s =
          (Inr (), s1\<lparr>queues := (queues s1)(q := queues s1 q @ [(key, fn)])\<rparr>)"
    using below i q by (simp add: submit_def Let_def s1_def [symmetric]) (simp add: s1_def)
  then have "submit key fn nd s =
     (Inr (), s\<lparr>total_jobs := total_jobs s + 1,
                 queues := (queues s1)(q := queues s1 q @ [(key, fn)])\<rparr>)"
    by (simp add: s1_def)
  then show ?thesis by (intro exI)
qed

lemma submit_above_threshold:
  assumes ok: "pool_ok s" and above: "max_jobs_per_worker s < total_jobs s + 1"
  shows "\<exists>s'. submit key fn nd s = (Inr (), s') \<and> total_jobs s' = 0 \<and>
           (\<forall>name \<in> fst ` set (workers s). worker_replaced s s' name) \<and> pool_ok s' \<and>
           max_jobs_per_worker s' = max_jobs_per_worker s \<and> pending s' = pending s"
proof -
  define s1 where "s1 = s\<lparr>total_jobs := total_jobs s + 1\<rparr>"
  have ok1: "pool_ok s1" using ok pool_ok_frame [of s1 s] by (simp add: s1_def)
  from recycle_known [OF ok1] obtain C W F A nf np where
    rec: "recycle s1 = (Inr (), s1\<lparr>contexts := C, workers := W, flags := F, alive := A,
                             next_flag := nf, next_pid := np\<rparr>)"
    and repl: "\<forall>name \<in> fst ` set (workers s1).
        worker_replaced s1 (s1\<lparr>contexts := C, workers := W, flags := F, alive := A,
                             next_flag := nf, next_pid := np\<rparr>) name"
    and ok2: "pool_ok (s1\<lparr>contexts := C, workers := W, flags := F, alive := A,
                             next_flag := nf, next_pid := np\<rparr>)"
    by (elim exE conjE) (rule that)
  define s3 where "s3 = s\<lparr>contexts := C, workers := W, flags := F, alive := A,
                             next_flag := nf, next_pid := np, total_jobs := 0\<rparr>"
  have s3: "s1\<lparr>contexts := C, workers := W, flags := F, alive := A,
                             next_flag := nf, next_pid := np\<rparr>\<lparr>total_jobs := 0\<rparr> = s3"
    by (simp add: s1_def s3_def)
  have ok3: "pool_ok s3"
    using ok2 pool_ok_frame [of s3 "s1\<lparr>contexts := C, workers := W, flags := F, alive := A,
                             next_flag := nf, next_pid := np\<rparr>"] by (simp add: s3_def s1_def)
  have ne: "devices s3 \<noteq> []" using ok3 by (simp add: pool_ok_def)
  have pend: "\<forall>d \<in> set (devices s3). map_of (pending s3) (device d) \<noteq> None"
    using pool_ok_device [OF ok3] by blast
  from get_next_device_range [OF ne pend, of nd] obtain i where
    i: "get_next_device s3 nd = Inr i" "i < length (devices s3)" by blast
  then have "devices s3 ! i \<in> set (devices s3)" by simp
  with pend obtain q where q: "map_of (pending s3) (device (devices s3 ! i)) = Some q" by blast
  define s4 where "s4 = s3\<lparr>queues := (queues s3)(q := queues s3 q @ [(key, fn)])\<rparr>"
  have gt: "max_jobs_per_worker s1 < total_jobs s1" using above by (simp add: s1_def)
  have res: "submit key fn nd s = (Inr (), s4)"
    using gt i q
    by (simp add: submit_def Let_def s1_def [symmetric] rec s3 s4_def)
  have r4: "worker_replaced s s4 name" if "name \<in> fst ` set (workers s)" for name
  proof -
    have "worker_replaced s1 (s1\<lparr>contexts := C, workers := W, flags := F, alive := A,
                             next_flag := nf, next_pid := np\<rparr>) name"
      using repl that by (auto simp add: s1_def)
    then show ?thesis
      using worker_replaced_frame [of s s1 s4 "s1\<lparr>contexts := C, workers := W, flags := F,
                             alive := A, next_flag := nf, next_pid := np\<rparr>" name]
      by (simp add: s1_def s4_def s3_def)
  qed
  have ok4: "pool_ok s4" using ok3 pool_ok_frame [of s4 s3] by (simp add: s4_def)
  have "total_jobs s4 = 0" "max_jobs_per_worker s4 = max_jobs_per_worker s" "pending s4 = pending s"
    by (simp_all add: s4_def s3_def)
  with res r4 ok4 show ?thesis by (intro exI [where x = s4]) simp
qed

lemma submit_all_below_threshold:
  assumes "pool_ok s" and "total_jobs s + int (length jobs) \<le> max_jobs_per_worker s"
  shows "\<exists>Q. submit_all jobs s =
           (Inr (), s\<lparr>total_jobs := total_jobs s + int (length jobs), queues := Q\<rparr>)"
  using assms
proof (induction jobs arbitrary: s)
  case Nil
  have "s = s\<lparr>total_jobs := total_jobs s + int (length ([] :: (string \<times> 'a \<times> DeviceParams option) list)),
               queues := queues s\<rparr>" by simp
  then have "submit_all [] s = (Inr (), s\<lparr>total_jobs := total_jobs s + int (length ([] :: (string \<times> 'a \<times> DeviceParams option) list)),
               queues := queues s\<rparr>)" by simp
  then show ?case by (intro exI)
next
  case (Cons j jobs)
  obtain key fn nd where j: "j = (key, fn, nd)" by (cases j)
  have below: "total_jobs s + 1 \<le> max_jobs_per_worker s" using Cons.prems(2) by simp
  from submit_below_threshold [OF Cons.prems(1) below, of key fn nd] obtain Q where
    sub: "submit key fn nd s = (Inr (), s\<lparr>total_jobs := total_jobs s + 1, queues := Q\<rparr>)"
    by (elim exE)
  define s1 where "s1 = s\<lparr>total_jobs := total_jobs s + 1, queues := Q\<rparr>"
  have ok1: "pool_ok s1" using Cons.prems(1) pool_ok_frame [of s1 s] by (simp add: s1_def)
  have le1: "total_jobs s1 + int (length jobs) \<le> max_jobs_per_worker s1"
    using Cons.prems(2) by (simp add: s1_def)
  from Cons.IH [OF ok1 le1] obtain Q' where
    rest: "submit_all jobs s1 =
           (Inr (), s1\<lparr>total_jobs := total_jobs s1 + int (length jobs), queues := Q'\<rparr>)"
    by (elim exE)
  have "submit_all (j # jobs) s =
          (Inr (), s\<lparr>total_jobs := total_jobs s + int (length (j # jobs)), queues := Q'\<rparr>)"
    by (simp add: j sub s1_def [symmetric] rest) (simp add: s1_def)
  then show ?case by (intro exI)
qed

text \<open>
  C8. In a constructed pool \<open>recycle\<close> does not raise, leaves \<open>pending\<close> and the
  contents of every queue as they were, and replaces the worker of every entry of
  \<open>workers\<close> and of every device: the old process is stopped and the new one, which
  did not exist before, runs on the queue that \<open>pending\<close> already had for the device.
\<close>

theorem recycle_replaces_workers_keeps_queues:
  assumes "pool_ok s"
  shows "\<exists>s'. recycle s = (Inr (), s') \<and> pending s' = pending s \<and> queues s' = queues s \<and>
           (\<forall>name \<in> fst ` set (workers s). worker_replaced s s' name) \<and>
           (\<forall>d \<in> set (devices s). worker_replaced s s' (device d))"
proof -
  from recycle_known [OF assms] obtain C W F A nf np where
    rec: "recycle s = (Inr (), s\<lparr>contexts := C, workers := W, flags := F, alive := A,
                             next_flag := nf, next_pid := np\<rparr>)"
    and repl: "\<forall>name \<in> fst ` set (workers s).
        worker_replaced s (s\<lparr>contexts := C, workers := W, flags := F, alive := A,
                             next_flag := nf, next_pid := np\<rparr>) name"
    by (elim exE conjE) (rule that)
  define s' where "s' = s\<lparr>contexts := C, workers := W, flags := F, alive := A,
                             next_flag := nf, next_pid := np\<rparr>"
  have dev: "device d \<in> fst ` set (workers s)" if "d \<in> set (devices s)" for d
  proof -
    from assms that have "map_of (workers s) (device d) \<noteq> None"
      by (auto simp add: pool_ok_def list_all_iff)
    then show ?thesis by (simp add: map_of_eq_None_iff)
  qed
  have "recycle s = (Inr (), s')" using rec by (simp add: s'_def)
  moreover have "pending s' = pending s" "queues s' = queues s" by (simp_all add: s'_def)
  moreover have "\<forall>name \<in> fst ` set (workers s). worker_replaced s s' name"
    using repl by (simp add: s'_def)
  moreover from this dev have "\<forall>d \<in> set (devices s). worker_replaced s s' (device d)"
    by blast
  ultimately show ?thesis by (intro exI [where x = s']) simp
qed

theorem recycle_replaces_workers_keeps_queues_witness:
  "pool_ok (snd (submit_all [(''a'', (), None), (''b'', (), None), (''c'', (), None)]
                 (init_pool [gpu0, gpu1] 10 :: unit pool))) \<and>
   (\<exists>s'. recycle (snd (submit_all [(''a'', (), None), (''b'', (), None), (''c'', (), None)]
                 (init_pool [gpu0, gpu1] 10 :: unit pool))) = (Inr (), s') \<and>
      map_of (pending s') ''gpu0'' = Some 0 \<and> queues s' 0 = [(''b'', ()), (''c'', ())] \<and>
      map_of (pending s') ''gpu1'' = Some 1 \<and> queues s' 1 = [(''a'', ())] \<and>
      worker_replaced (snd (submit_all [(''a'', (), None), (''b'', (), None), (''c'', (), None)]
                 (init_pool [gpu0, gpu1] 10 :: unit pool))) s' ''gpu0'' \<and>
      worker_replaced (snd (submit_all [(''a'', (), None), (''b'', (), None), (''c'', (), None)]
                 (init_pool [gpu0, gpu1] 10 :: unit pool))) s' ''gpu1'')"
proof -
  define s where "s = snd (submit_all [(''a'', (), None), (''b'', (), None), (''c'', (), None)]
                 (init_pool [gpu0, gpu1] 10 :: unit pool))"
  have s: "s = \<lparr>devices = [gpu0, gpu1], max_jobs_per_worker = 10,
       contexts = [(''gpu0'', \<lparr>ctx_name = ''gpu0'', ctx_device = gpu0, ctx_cancel = 0, ctx_pending = 0\<rparr>),
                   (''gpu1'', \<lparr>ctx_name = ''gpu1'', ctx_device = gpu1, ctx_cancel = 1, ctx_pending = 1\<rparr>)],
       pending = [(''gpu0'', 0), (''gpu1'', 1)],
       workers = [(''gpu0'', Some \<lparr>pid = 0, proc_args = \<lparr>ctx_name = ''gpu0'', ctx_device = gpu0, ctx_cancel = 0, ctx_pending = 0\<rparr>\<rparr>),
                  (''gpu1'', Some \<lparr>pid = 1, proc_args = \<lparr>ctx_name = ''gpu1'', ctx_device = gpu1, ctx_cancel = 1, ctx_pending = 1\<rparr>\<rparr>)],
       active_jobs = [], cancelled_jobs = [], finished_jobs = [], total_jobs = 3,
       queues = (\<lambda>_. [])(0 := [(''b'', ()), (''c'', ())], 1 := [(''a'', ())]),
       flags = (\<lambda>_. False), alive = {1, 0}, next_queue = 2, next_flag = 2, next_pid = 2\<rparr>"
    unfolding s_def
    by (simp add: init_pool_def create_device_worker_def Let_def get_next_device_def
        select_lowest_def counter_update_def Counter_def counter_incr_def most_common_def
        upt_rec submit_def gpu0_def gpu1_def fun_eq_iff)
  have h: "pool_ok s"
    by (simp add: s pool_ok_def gpu0_def gpu1_def)
  from recycle_replaces_workers_keeps_queues [OF h]
  obtain s' where r: "recycle s = (Inr (), s')" "pending s' = pending s" "queues s' = queues s"
    and d: "\<forall>d \<in> set (devices s). worker_replaced s s' (device d)"
    by (elim exE conjE) (rule that)
  from d have "worker_replaced s s' ''gpu0''" "worker_replaced s s' ''gpu1''"
    by (simp_all add: s gpu0_def gpu1_def)
  moreover have "map_of (pending s') ''gpu0'' = Some 0" "queues s' 0 = [(''b'', ()), (''c'', ())]"
    "map_of (pending s') ''gpu1'' = Some 1" "queues s' 1 = [(''a'', ())]"
    by (simp_all add: r s)
  ultimately show ?thesis
    using h r(1) unfolding s_def [symmetric] by (intro conjI exI [where x = s']) 
qed

text \<open>
  C3. In a constructed pool whose job counter is zero, any run of at most
  \<open>max_jobs_per_worker\<close> submissions returns without touching the workers and counts
  the submissions; when the run has exactly \<open>max_jobs_per_worker\<close> submissions, the
  next \<open>submit\<close> replaces every worker and leaves the counter at zero.
\<close>

theorem submit_recycles_after_max_jobs:
  assumes "pool_ok s" and "total_jobs s = 0"
    and "int (length jobs) \<le> max_jobs_per_worker s"
  shows "\<exists>s1. submit_all jobs s = (Inr (), s1) \<and>
           workers s1 = workers s \<and> alive s1 = alive s \<and>
           total_jobs s1 = int (length jobs) \<and>
           (int (length jobs) = max_jobs_per_worker s \<longrightarrow>
              (\<exists>s2. submit key fn nd s1 = (Inr (), s2) \<and> total_jobs s2 = 0 \<and>
                 (\<forall>name \<in> fst ` set (workers s1). worker_replaced s1 s2 name)))"
proof -
  from assms have le: "total_jobs s + int (length jobs) \<le> max_jobs_per_worker s" by simp
  from submit_all_below_threshold [OF assms(1) le] obtain Q where
    run: "submit_all jobs s =
            (Inr (), s\<lparr>total_jobs := total_jobs s + int (length jobs), queues := Q\<rparr>)"
    by (elim exE)
  define s1 where "s1 = s\<lparr>total_jobs := total_jobs s + int (length jobs), queues := Q\<rparr>"
  have ok1: "pool_ok s1" using assms(1) pool_ok_frame [of s1 s] by (simp add: s1_def)
  have f1: "workers s1 = workers s" "alive s1 = alive s" "total_jobs s1 = int (length jobs)"
    "max_jobs_per_worker s1 = max_jobs_per_worker s"
    using assms(2) by (simp_all add: s1_def)
  have after: "\<exists>s2. submit key fn nd s1 = (Inr (), s2) \<and> total_jobs s2 = 0 \<and>
                 (\<forall>name \<in> fst ` set (workers s1). worker_replaced s1 s2 name)"
    if "int (length jobs) = max_jobs_per_worker s"
  proof -
    from that have "max_jobs_per_worker s1 < total_jobs s1 + 1" by (simp add: f1)
    from submit_above_threshold [OF ok1 this, of key fn nd] show ?thesis by blast
  qed
  from run f1 after show ?thesis
    unfolding s1_def [symmetric] by (intro exI [where x = s1]) simp
qed

theorem submit_recycles_after_max_jobs_witness:
  "pool_ok (init_pool [gpu0, gpu1] 2 :: unit pool) \<and>
   total_jobs (init_pool [gpu0, gpu1] 2 :: unit pool) = 0 \<and>
   int (length [(''a'', (), None), (''b'', (), Some gpu1)])
     \<le> max_jobs_per_worker (init_pool [gpu0, gpu1] 2 :: unit pool) \<and>
   int (length [(''a'', (), None), (''b'', (), Some gpu1)])
     = max_jobs_per_worker (init_pool [gpu0, gpu1] 2 :: unit pool) \<and>
   (\<exists>s1 s2. submit_all [(''a'', (), None), (''b'', (), Some gpu1)]
              (init_pool [gpu0, gpu1] 2 :: unit pool) = (Inr (), s1) \<and>
      workers s1 = workers (init_pool [gpu0, gpu1] 2 :: unit pool) \<and>
      total_jobs s1 = 2 \<and>
      submit ''c'' () None s1 = (Inr (), s2) \<and> total_jobs s2 = 0 \<and>
      worker_replaced s1 s2 ''gpu0'' \<and> worker_replaced s1 s2 ''gpu1'')"
proof -
  let ?s = "init_pool [gpu0, gpu1] 2 :: unit pool"
  let ?jobs = "[(''a'', (), None), (''b'', (), Some gpu1)]"
  have h1: "pool_ok ?s" by (simp add: init_pool_def create_device_worker_def gpu0_def gpu1_def Let_def pool_ok_def)
  have h2: "total_jobs ?s = 0" by (simp add: init_pool_def create_device_worker_def Let_def)
  have h3: "int (length ?jobs) \<le> max_jobs_per_worker ?s"
    by (simp add: init_pool_def create_device_worker_def Let_def)
  have h4: "int (length ?jobs) = max_jobs_per_worker ?s"
    by (simp add: init_pool_def create_device_worker_def Let_def)
  have w: "fst ` set (workers ?s) = {''gpu0'', ''gpu1''}"
    by (simp add: init_pool_def create_device_worker_def gpu0_def gpu1_def Let_def)
  from submit_recycles_after_max_jobs [OF h1 h2 h3, of "''c''" "()" None]
  obtain s1 where a: "submit_all ?jobs ?s = (Inr (), s1)" "workers s1 = workers ?s"
      "total_jobs s1 = int (length ?jobs)"
    and imp: "int (length ?jobs) = max_jobs_per_worker ?s \<longrightarrow>
      (\<exists>s2. submit ''c'' () None s1 = (Inr (), s2) \<and> total_jobs s2 = 0 \<and>
         (\<forall>name \<in> fst ` set (workers s1). worker_replaced s1 s2 name))"
    by (elim exE conjE) (rule that)
  from imp h4 have "\<exists>s2. submit ''c'' () None s1 = (Inr (), s2) \<and> total_jobs s2 = 0 \<and>
         (\<forall>name \<in> fst ` set (workers s1). worker_replaced s1 s2 name)"
    by (rule mp)
  then obtain s2 where b: "submit ''c'' () None s1 = (Inr (), s2)" "total_jobs s2 = 0"
    and c: "\<forall>name \<in> fst ` set (workers s1). worker_replaced s1 s2 name"
    by (elim exE conjE) (rule that)
  from c a(2) w have d: "worker_replaced s1 s2 ''gpu0''" "worker_replaced s1 s2 ''gpu1''"
    by simp_all
  from a b d h1 h2 h3 h4 show ?thesis
    by (intro conjI exI [where x = s1] exI [where x = s2]) simp_all
qed

subsection \<open>Concrete runs\<close>

lemmas run_defs = init_pool_def create_device_worker_def Let_def get_next_device_def
  select_lowest_def counter_update_def Counter_def counter_incr_def most_common_def
  upt_rec submit_def gpu0_def gpu1_def progress_body_def finished_body_def cancel_def
  set_cancel_def

lemma job1_queued_fields:
  "active_jobs job1_queued = []" "cancelled_jobs job1_queued = []"
  "finished_jobs job1_queued = []"
  "contexts job1_queued = [(''gpu0'', \<lparr>ctx_name = ''gpu0'', ctx_device = gpu0,
                                        ctx_cancel = 0, ctx_pending = 0\<rparr>)]"
  "flags job1_queued 0 = False"
  by (simp_all add: job1_queued_def run_defs)

lemma two_active_fields:
  "active_jobs two_active = [(''job-1'', ''gpu0'', 3), (''job-2'', ''gpu0'', 1)]"
  "cancelled_jobs two_active = []" "finished_jobs two_active = []"
  "contexts two_active = [(''gpu0'', \<lparr>ctx_name = ''gpu0'', ctx_device = gpu0,
                                        ctx_cancel = 0, ctx_pending = 0\<rparr>)]"
  "flags two_active 0 = False"
  by (simp_all add: two_active_def run_defs)

lemma job1_finished_fields:
  "active_jobs job1_finished = []" "finished_jobs job1_finished = [(''job-1'', 5, False)]"
  by (simp_all add: job1_finished_def job1_queued_def run_defs)

subsection \<open>Cancellation and the listeners\<close>

lemma cancel_not_active:
  assumes "map_of (active_jobs s) key = None"
  shows "cancel key s = (Inr True, s\<lparr>cancelled_jobs := cancelled_jobs s @ [key]\<rparr>)"
  using assms by (simp add: cancel_def Let_def)

lemma cancel_active:
  assumes "map_of (active_jobs s) key = Some (dev, p)" and "map_of (contexts s) dev = Some ctx"
  shows "cancel key s =
           (Inr True, s\<lparr>cancelled_jobs := cancelled_jobs s @ [key],
                         flags := (flags s)(ctx_cancel ctx := True)\<rparr>)"
  using assms by (simp add: cancel_def Let_def set_cancel_def)

lemma progress_cancelled:
  assumes "job \<in> set (cancelled_jobs s)" and "map_of (contexts s) dev = Some ctx"
  shows "progress_body (job, dev, v) s =
           (Inr (), s\<lparr>active_jobs := AList.update job (dev, v) (active_jobs s),
                       flags := (flags s)(ctx_cancel ctx := True)\<rparr>)"
  using assms by (simp add: progress_body_def Let_def set_cancel_def)

lemma progress_not_cancelled:
  assumes "job \<notin> set (cancelled_jobs s)"
  shows "progress_body (job, dev, v) s =
           (Inr (), s\<lparr>active_jobs := AList.update job (dev, v) (active_jobs s)\<rparr>)"
  using assms by (simp add: progress_body_def Let_def)

lemma finished_known:
  assumes "map_of (contexts s) dev = Some ctx" and "map_of (active_jobs s) job = Some (d, p)"
  shows "finished_body (job, dev) s =
           (Inr (), s\<lparr>finished_jobs := finished_jobs s @ [(job, p, flags s (ctx_cancel ctx))],
                       active_jobs := AList.delete job (active_jobs s)\<rparr>)"
  using assms by (simp add: finished_body_def)

text \<open>
  C5. For a key that is not active, \<open>cancel\<close> returns \<open>True\<close> and records the key,
  and changes neither \<open>pending\<close>, nor any queue, nor any cancel flag. The progress
  listener, on a message for a job in the cancellation requests, sets the flag of the
  message's device and no other; on a message for a job that is not in the cancellation
  requests it changes no flag.
\<close>

theorem cancel_before_active_is_cooperative:
  "(map_of (active_jobs s) key = None \<longrightarrow>
      (\<exists>s'. cancel key s = (Inr True, s') \<and> key \<in> set (cancelled_jobs s') \<and>
            pending s' = pending s \<and> queues s' = queues s \<and> flags s' = flags s)) \<and>
   (job \<in> set (cancelled_jobs t) \<and> map_of (contexts t) dev = Some ctx \<longrightarrow>
      flags (progress_worker [Msg (job, dev, v)] t) = (flags t)(ctx_cancel ctx := True)) \<and>
   (job' \<notin> set (cancelled_jobs u) \<longrightarrow>
      flags (progress_worker [Msg (job', dev', v')] u) = flags u)"
proof (intro conjI impI)
  assume "map_of (active_jobs s) key = None"
  then have "cancel key s = (Inr True, s\<lparr>cancelled_jobs := cancelled_jobs s @ [key]\<rparr>)"
    by (rule cancel_not_active)
  then show "\<exists>s'. cancel key s = (Inr True, s') \<and> key \<in> set (cancelled_jobs s') \<and>
            pending s' = pending s \<and> queues s' = queues s \<and> flags s' = flags s"
    by simp
next
  assume "job \<in> set (cancelled_jobs t) \<and> map_of (contexts t) dev = Some ctx"
  then show "flags (progress_worker [Msg (job, dev, v)] t) = (flags t)(ctx_cancel ctx := True)"
    by (simp add: progress_cancelled)
next
  assume "job' \<notin> set (cancelled_jobs u)"
  then show "flags (progress_worker [Msg (job', dev', v')] u) = flags u"
    by (simp add: progress_not_cancelled)
qed

theorem cancel_before_active_is_cooperative_witness:
  "map_of (active_jobs job1_queued) ''job-1'' = None \<and>
   (\<exists>s'. cancel ''job-1'' job1_queued = (Inr True, s') \<and>
         ''job-1'' \<in> set (cancelled_jobs s') \<and> pending s' = pending job1_queued \<and>
         queues s' = queues job1_queued \<and> flags s' = flags job1_queued) \<and>
   ''job-1'' \<in> set (cancelled_jobs (snd (cancel ''job-1'' job1_queued))) \<and>
   map_of (contexts (snd (cancel ''job-1'' job1_queued))) ''gpu0''
     = Some \<lparr>ctx_name = ''gpu0'', ctx_device = gpu0, ctx_cancel = 0, ctx_pending = 0\<rparr> \<and>
   \<not> flags (snd (cancel ''job-1'' job1_queued)) 0 \<and>
   flags (progress_worker [Msg (''job-1'', ''gpu0'', 1)] (snd (cancel ''job-1'' job1_queued))) 0 \<and>
   ''job-1'' \<notin> set (cancelled_jobs job1_queued) \<and>
   flags (progress_worker [Msg (''job-1'', ''gpu0'', 1)] job1_queued) = flags job1_queued"
proof -
  let ?t = "snd (cancel ''job-1'' job1_queued)"
  let ?ctx = "\<lparr>ctx_name = ''gpu0'', ctx_device = gpu0, ctx_cancel = 0, ctx_pending = 0\<rparr>"
  have h1: "map_of (active_jobs job1_queued) ''job-1'' = None"
    by (simp add: job1_queued_fields)
  have h2: "''job-1'' \<in> set (cancelled_jobs ?t) \<and> map_of (contexts ?t) ''gpu0'' = Some ?ctx"
    by (simp add: cancel_def Let_def job1_queued_fields)
  have h3: "''job-1'' \<notin> set (cancelled_jobs job1_queued)"
    by (simp add: job1_queued_fields)
  have before: "\<not> flags ?t 0"
    by (simp add: cancel_def Let_def job1_queued_fields)
  note inst = cancel_before_active_is_cooperative
    [where s = job1_queued and key = "''job-1''" and job = "''job-1''" and t = ?t
       and dev = "''gpu0''" and ctx = ?ctx and v = 1 and job' = "''job-1''"
       and u = job1_queued and dev' = "''gpu0''" and v' = 1]
  from inst h1 have c1: "\<exists>s'. cancel ''job-1'' job1_queued = (Inr True, s') \<and>
         ''job-1'' \<in> set (cancelled_jobs s') \<and> pending s' = pending job1_queued \<and>
         queues s' = queues job1_queued \<and> flags s' = flags job1_queued"
    by blast
  from inst h2 have "flags (progress_worker [Msg (''job-1'', ''gpu0'', 1)] ?t)
                      = (flags ?t)(ctx_cancel ?ctx := True)"
    by blast
  then have c2: "flags (progress_worker [Msg (''job-1'', ''gpu0'', 1)] ?t) 0" by simp
  from inst h3 have c3: "flags (progress_worker [Msg (''job-1'', ''gpu0'', 1)] job1_queued)
                          = flags job1_queued"
    by blast
  from h1 c1 h2 before c2 h3 c3 show ?thesis by (intro conjI) simp_all
qed

text \<open>
  C10. The finished listener records, as the cancelled field of a job, the value of the
  cancel flag of the device named in the finished message. So when \<open>cancel\<close> of an
  active job \<open>keyA\<close> has set the flag of its device, another job \<open>keyB\<close>, which was
  never asked to cancel, is recorded as cancelled when its finished message for that
  device is processed next.
\<close>

theorem cancel_flag_is_per_device:
  "(map_of (contexts s) dev = Some ctx \<and> map_of (active_jobs s) job = Some (d, p) \<longrightarrow>
      finished_jobs (finished_worker [Msg (job, dev)] s)
        = finished_jobs s @ [(job, p, flags s (ctx_cancel ctx))]) \<and>
   (map_of (active_jobs t) keyA = Some (devA, pa) \<and> map_of (contexts t) devA = Some ctxA \<and>
    map_of (active_jobs t) keyB = Some (devB, pb) \<and> keyB \<noteq> keyA \<and>
    keyB \<notin> set (cancelled_jobs t) \<longrightarrow>
      keyB \<notin> set (cancelled_jobs (snd (cancel keyA t))) \<and>
      finished_jobs (finished_worker [Msg (keyB, devA)] (snd (cancel keyA t)))
        = finished_jobs t @ [(keyB, pb, True)])"
proof (intro conjI impI)
  assume "map_of (contexts s) dev = Some ctx \<and> map_of (active_jobs s) job = Some (d, p)"
  then show "finished_jobs (finished_worker [Msg (job, dev)] s)
        = finished_jobs s @ [(job, p, flags s (ctx_cancel ctx))]"
    by (simp add: finished_known)
next
  assume a: "map_of (active_jobs t) keyA = Some (devA, pa) \<and> map_of (contexts t) devA = Some ctxA \<and>
    map_of (active_jobs t) keyB = Some (devB, pb) \<and> keyB \<noteq> keyA \<and>
    keyB \<notin> set (cancelled_jobs t)"
  define t1 where "t1 = t\<lparr>cancelled_jobs := cancelled_jobs t @ [keyA],
                         flags := (flags t)(ctx_cancel ctxA := True)\<rparr>"
  from a have c: "cancel keyA t = (Inr True, t1)"
    by (simp add: cancel_active t1_def)
  from a have "map_of (contexts t1) devA = Some ctxA" "map_of (active_jobs t1) keyB = Some (devB, pb)"
    by (simp_all add: t1_def)
  from finished_known [OF this]
  have "finished_jobs (finished_worker [Msg (keyB, devA)] t1)
          = finished_jobs t1 @ [(keyB, pb, flags t1 (ctx_cancel ctxA))]"
    by simp
  then show "finished_jobs (finished_worker [Msg (keyB, devA)] (snd (cancel keyA t)))
        = finished_jobs t @ [(keyB, pb, True)]"
    by (simp add: c) (simp add: t1_def)
  from a show "keyB \<notin> set (cancelled_jobs (snd (cancel keyA t)))"
    by (simp add: c t1_def)
qed

theorem cancel_flag_is_per_device_witness:
  "map_of (contexts two_active) ''gpu0''
     = Some \<lparr>ctx_name = ''gpu0'', ctx_device = gpu0, ctx_cancel = 0, ctx_pending = 0\<rparr> \<and>
   map_of (active_jobs two_active) ''job-2'' = Some (''gpu0'', 1) \<and>
   finished_jobs (finished_worker [Msg (''job-2'', ''gpu0'')] two_active)
     = [(''job-2'', 1, False)] \<and>
   map_of (active_jobs two_active) ''job-1'' = Some (''gpu0'', 3) \<and>
   ''job-2'' \<noteq> ''job-1'' \<and>
   ''job-2'' \<notin> set (cancelled_jobs two_active) \<and>
   ''job-2'' \<notin> set (cancelled_jobs (snd (cancel ''job-1'' two_active))) \<and>
   finished_jobs (finished_worker [Msg (''job-2'', ''gpu0'')] (snd (cancel ''job-1'' two_active)))
     = [(''job-2'', 1, True)]"
proof -
  let ?ctx = "\<lparr>ctx_name = ''gpu0'', ctx_device = gpu0, ctx_cancel = 0, ctx_pending = 0\<rparr>"
  have h1: "map_of (contexts two_active) ''gpu0'' = Some ?ctx \<and>
            map_of (active_jobs two_active) ''job-2'' = Some (''gpu0'', 1)"
    by (simp add: two_active_fields)
  have h2: "map_of (active_jobs two_active) ''job-1'' = Some (''gpu0'', 3) \<and>
            map_of (contexts two_active) ''gpu0'' = Some ?ctx \<and>
            map_of (active_jobs two_active) ''job-2'' = Some (''gpu0'', 1) \<and>
            ''job-2'' \<noteq> ''job-1'' \<and> ''job-2'' \<notin> set (cancelled_jobs two_active)"
    by (simp add: two_active_fields)
  note inst = cancel_flag_is_per_device
    [where s = two_active and dev = "''gpu0''" and ctx = ?ctx and job = "''job-2''"
       and d = "''gpu0''" and p = 1 and t = two_active and keyA = "''job-1''"
       and devA = "''gpu0''" and pa = 3 and ctxA = ?ctx and keyB = "''job-2''"
       and devB = "''gpu0''" and pb = 1]
  from inst h1 have c1: "finished_jobs (finished_worker [Msg (''job-2'', ''gpu0'')] two_active)
        = finished_jobs two_active @ [(''job-2'', 1, flags two_active (ctx_cancel ?ctx))]"
    by blast
  from inst h2 have c2: "''job-2'' \<notin> set (cancelled_jobs (snd (cancel ''job-1'' two_active))) \<and>
      finished_jobs (finished_worker [Msg (''job-2'', ''gpu0'')] (snd (cancel ''job-1'' two_active)))
        = finished_jobs two_active @ [(''job-2'', 1, True)]"
    by blast
  from h1 h2 c1 c2 show ?thesis by (simp add: two_active_fields)
qed

text \<open>
  C6. A job is submitted and its finished message arrives before any progress message, so
  the key is not in \<open>active_jobs\<close>: the body of the finished listener raises
  \<open>KeyError\<close>, which the loop logs; no finished record is appended, and \<open>done\<close>
  still answers \<open>(None, 0)\<close> for the key.
\<close>

theorem finished_without_progress_not_recorded:
  "fst (finished_body (''job-1'', ''gpu0'')
          (snd (submit ''job-1'' () None (init_pool [gpu0] 10 :: unit pool)))) = Inl KeyError \<and>
   finished_jobs (finished_worker [Msg (''job-1'', ''gpu0'')]
          (snd (submit ''job-1'' () None (init_pool [gpu0] 10 :: unit pool)))) = [] \<and>
   done_job ''job-1'' (finished_worker [Msg (''job-1'', ''gpu0'')]
          (snd (submit ''job-1'' () None (init_pool [gpu0] 10 :: unit pool)))) = (None, 0)"
  by (simp add: init_pool_def create_device_worker_def Let_def get_next_device_def
        select_lowest_def counter_update_def Counter_def counter_incr_def most_common_def
        upt_rec submit_def gpu0_def done_job_def finished_body_def)

subsection \<open>Queries\<close>

text \<open>
  What \<open>done\<close> answers: for a key with a finished record, \<open>True\<close> and the
  progress of a record of the key; otherwise, for a key in \<open>active_jobs\<close>,
  \<open>False\<close> and its progress; otherwise \<open>(None, 0)\<close>.
\<close>

lemma finished_progress_None:
  "finished_progress fs key = None \<longleftrightarrow> key \<notin> fst ` set fs"
  by (induction fs key rule: finished_progress.induct) auto

lemma finished_progress_Some:
  "finished_progress fs key = Some p \<Longrightarrow> \<exists>c. (key, p, c) \<in> set fs"
  by (induction fs key rule: finished_progress.induct) (auto split: if_splits)

lemma done_job_finished:
  assumes "key \<in> fst ` set (finished_jobs s)"
  shows "\<exists>p c. (key, p, c) \<in> set (finished_jobs s) \<and> done_job key s = (Some True, p)"
proof -
  from assms obtain p where p: "finished_progress (finished_jobs s) key = Some p"
    using finished_progress_None [of "finished_jobs s" key] by auto
  from finished_progress_Some [OF p] obtain c where "(key, p, c) \<in> set (finished_jobs s)" ..
  with p show ?thesis by (auto simp add: done_job_def)
qed

lemma done_job_active:
  assumes "key \<notin> fst ` set (finished_jobs s)" and "map_of (active_jobs s) key = Some (d, p)"
  shows "done_job key s = (Some False, p)"
  using assms finished_progress_None [of "finished_jobs s" key] by (simp add: done_job_def)

lemma done_job_unknown:
  assumes "key \<notin> fst ` set (finished_jobs s)" and "map_of (active_jobs s) key = None"
  shows "done_job key s = (None, 0)"
  using assms finished_progress_None [of "finished_jobs s" key] by (simp add: done_job_def)

text \<open>
  C2. A job is submitted and waits in the queue of its device, with no progress message
  yet: \<open>done\<close> answers \<open>(None, 0)\<close>, the answer for an unknown key, not
  \<open>(False, 0)\<close>.
\<close>

theorem done_pending_job_unknown:
  "fst (submit ''job-1'' () None (init_pool [gpu0] 10 :: unit pool)) = Inr () \<and>
   queues (snd (submit ''job-1'' () None (init_pool [gpu0] 10 :: unit pool))) 0 = [(''job-1'', ())] \<and>
   done_job ''job-1'' (snd (submit ''job-1'' () None (init_pool [gpu0] 10 :: unit pool))) = (None, 0)"
  by (simp add: init_pool_def create_device_worker_def Let_def get_next_device_def
        select_lowest_def counter_update_def Counter_def counter_incr_def most_common_def
        upt_rec submit_def gpu0_def done_job_def)

text \<open>
  C7, as stated, fails: after one submission and no finished record, \<open>status\<close> returns
  the empty list, not one entry.
\<close>

theorem status_misses_pending_job:
  "fst (submit ''job-1'' () None (init_pool [gpu0] 10 :: unit pool)) = Inr () \<and>
   finished_jobs (snd (submit ''job-1'' () None (init_pool [gpu0] 10 :: unit pool))) = [] \<and>
   status (snd (submit ''job-1'' () None (init_pool [gpu0] 10 :: unit pool))) = Inr []"
  by (simp add: init_pool_def create_device_worker_def Let_def get_next_device_def
        select_lowest_def counter_update_def Counter_def counter_incr_def most_common_def
        upt_rec submit_def gpu0_def status_def)

text \<open>With a job in \<open>active_jobs\<close>, \<open>status\<close> raises \<open>ValueError\<close>.\<close>

lemma status_active_job_raises:
  "status (progress_worker [Msg (''job-1'', ''gpu0'', 1)]
     (snd (submit ''job-1'' () None (init_pool [gpu0] 10 :: unit pool)))) = Inl ValueError"
  by (simp add: init_pool_def create_device_worker_def Let_def get_next_device_def
        select_lowest_def counter_update_def Counter_def counter_incr_def most_common_def
        upt_rec submit_def gpu0_def status_def progress_body_def)

text \<open>
  C7, amended. When no job is in \<open>active_jobs\<close>, \<open>status\<close> returns one tuple per
  finished record, in the order of the records, with the key, progress and cancelled
  field of the record, and every tuple is marked finished. A job that was submitted and
  has no finished record is not listed.
\<close>

theorem status_reports_finished_records:
  assumes "active_jobs s = []"
  shows "\<exists>history. status s = Inr history \<and>
           length history = length (finished_jobs s) \<and>
           map (\<lambda>(name, progress, fin, cancel). (name, progress, cancel)) history
             = finished_jobs s \<and>
           list_all (\<lambda>(name, progress, fin, cancel). fin) history"
proof -
  let ?h = "map (\<lambda>(name, progress, cancel). (name, progress, True, cancel)) (finished_jobs s)"
  have "status s = Inr ?h" using assms by (simp add: status_def)
  moreover have "length ?h = length (finished_jobs s)" by simp
  moreover have "map (\<lambda>(name, progress, fin, cancel). (name, progress, cancel)) ?h
                   = finished_jobs s"
    by (simp add: comp_def split_beta)
  moreover have "list_all (\<lambda>(name, progress, fin, cancel). fin) ?h"
    by (simp add: list_all_iff split_beta)
  ultimately show ?thesis by blast
qed

theorem status_reports_finished_records_witness:
  "active_jobs job1_finished = [] \<and>
   (\<exists>history. status job1_finished = Inr history \<and> length history = 1 \<and>
      map (\<lambda>(name, progress, fin, cancel). (name, progress, cancel)) history
        = [(''job-1'', 5, False)] \<and>
      list_all (\<lambda>(name, progress, fin, cancel). fin) history)"
proof -
  have h: "active_jobs job1_finished = []" by (simp add: job1_finished_fields)
  from status_reports_finished_records [OF h] h show ?thesis
    by (simp add: job1_finished_fields)
qed

subsection \<open>Constructed pools\<close>

text \<open>
  \<open>pool_ok\<close> holds after \<open>__init__\<close> with at least one device, and \<open>submit\<close>,
  \<open>cancel\<close> and the two listeners keep it; \<open>submit\<close> does not raise in such a pool.
\<close>

lemma set_update_subset: "set (AList.update k v al) \<subseteq> insert (k, v) (set al)"
  by (induction al) auto

lemma create_device_worker_fields:
  "devices (create_device_worker d s) = devices s"
  "workers (create_device_worker d s) =
     AList.update (device d)
       (Some \<lparr>pid = next_pid s,
              proc_args = \<lparr>ctx_name = device d, ctx_device = d, ctx_cancel = next_flag s,
                           ctx_pending = (case map_of (pending s) (device d) of
                                            Some q \<Rightarrow> q | None \<Rightarrow> next_queue s)\<rparr>\<rparr>)
       (workers s)"
  "next_pid (create_device_worker d s) = Suc (next_pid s)"
  "pending (create_device_worker d s) =
     (case map_of (pending s) (device d) of
        Some q \<Rightarrow> pending s
      | None \<Rightarrow> AList.update (device d) (next_queue s) (pending s))"
  by (simp_all add: create_device_worker_def Let_def split: option.splits)

lemma workers_ok_create:
  assumes "workers_ok D s" and "device d \<in> D"
  shows "workers_ok D (create_device_worker d s)"
proof -
  let ?p = "\<lparr>pid = next_pid s,
              proc_args = \<lparr>ctx_name = device d, ctx_device = d, ctx_cancel = next_flag s,
                           ctx_pending = (case map_of (pending s) (device d) of
                                            Some q \<Rightarrow> q | None \<Rightarrow> next_queue s)\<rparr>\<rparr>"
  have "distinct (map fst (AList.update (device d) (Some ?p) (workers s)))"
    using assms(1) by (simp add: workers_ok_def distinct_update)
  moreover have "name \<in> D \<and> (\<exists>p. w = Some p \<and> pid p < Suc (next_pid s))"
    if "(name, w) \<in> set (AList.update (device d) (Some ?p) (workers s))" for name w
  proof -
    from that set_update_subset [of "device d" "Some ?p" "workers s"]
    have "(name, w) = (device d, Some ?p) \<or> (name, w) \<in> set (workers s)" by auto
    then show ?thesis
    proof
      assume "(name, w) = (device d, Some ?p)"
      then show ?thesis using assms(2) by simp
    next
      assume "(name, w) \<in> set (workers s)"
      then show ?thesis using assms(1) by (fastforce simp add: workers_ok_def)
    qed
  qed
  ultimately show ?thesis
    unfolding workers_ok_def create_device_worker_fields by blast
qed

lemma covered_create:
  assumes "covered X s"
  shows "covered (insert (device d) X) (create_device_worker d s)"
  using assms unfolding covered_def create_device_worker_fields
  by (auto simp add: update_conv' split: option.splits)

lemma start_workers_ok:
  assumes "workers_ok D s" and "device ` set ds \<subseteq> D" and "covered X s"
  shows "workers_ok D (fold create_device_worker ds s) \<and>
         covered (X \<union> device ` set ds) (fold create_device_worker ds s) \<and>
         devices (fold create_device_worker ds s) = devices s"
  using assms
proof (induction ds arbitrary: s X)
  case Nil
  then show ?case by simp
next
  case (Cons d ds)
  have a: "workers_ok D (create_device_worker d s)"
    using Cons.prems(1,2) by (simp add: workers_ok_create)
  have b: "covered (insert (device d) X) (create_device_worker d s)"
    using Cons.prems(3) by (rule covered_create)
  have c: "device ` set ds \<subseteq> D" using Cons.prems(2) by simp
  from Cons.IH [OF a c b] show ?case
    by (simp add: create_device_worker_fields)
qed

lemma pool_ok_iff:
  "pool_ok s \<longleftrightarrow> devices s \<noteq> [] \<and> workers_ok (device ` set (devices s)) s \<and>
                  covered (device ` set (devices s)) s"
  unfolding pool_ok_def workers_ok_def covered_def list_all_iff
  by (auto split: option.splits)

lemma init_pool_ok:
  assumes "devs \<noteq> []"
  shows "pool_ok (init_pool devs m :: 'f pool)"
proof -
  let ?s0 = "\<lparr>devices = devs, max_jobs_per_worker = m, contexts = [], pending = [],
        workers = [], active_jobs = [], cancelled_jobs = [], finished_jobs = [],
        total_jobs = 0, queues = (\<lambda>_. []), flags = (\<lambda>_. False), alive = {},
        next_queue = 0, next_flag = 0, next_pid = 0\<rparr> :: 'f pool"
  have "workers_ok (device ` set devs) ?s0" by (simp add: workers_ok_def)
  moreover have "covered {} ?s0" by (simp add: covered_def)
  ultimately have "workers_ok (device ` set devs) (fold create_device_worker devs ?s0) \<and>
         covered ({} \<union> device ` set devs) (fold create_device_worker devs ?s0) \<and>
         devices (fold create_device_worker devs ?s0) = devices ?s0"
    by (intro start_workers_ok) simp_all
  then show ?thesis
    using assms by (simp add: pool_ok_iff init_pool_def)
qed

lemma total_jobs_start:
  "total_jobs (fold create_device_worker ds s) = total_jobs s"
  by (induction ds arbitrary: s)
     (simp_all add: create_device_worker_def Let_def split: option.splits)

lemma init_pool_total_jobs: "total_jobs (init_pool devs m) = 0"
  by (simp add: init_pool_def total_jobs_start)

lemma pool_ok_submit:
  assumes "pool_ok s"
  shows "fst (submit key fn nd s) = Inr () \<and> pool_ok (snd (submit key fn nd s))"
proof (cases "total_jobs s + 1 \<le> max_jobs_per_worker s")
  case True
  from submit_below_threshold [OF assms True, of key fn nd] obtain Q where
    "submit key fn nd s = (Inr (), s\<lparr>total_jobs := total_jobs s + 1, queues := Q\<rparr>)"
    by (elim exE)
  then show ?thesis
    using assms pool_ok_frame [of "s\<lparr>total_jobs := total_jobs s + 1, queues := Q\<rparr>" s] by simp
next
  case False
  then have "max_jobs_per_worker s < total_jobs s + 1" by simp
  from submit_above_threshold [OF assms this, of key fn nd] show ?thesis by auto
qed

lemma pool_ok_cancel: "pool_ok s \<Longrightarrow> pool_ok (snd (cancel key s))"
  using pool_ok_frame [of "snd (cancel key s)" s]
  by (simp add: cancel_def Let_def set_cancel_def split: option.splits prod.splits)

lemma pool_ok_progress: "pool_ok s \<Longrightarrow> pool_ok (progress_worker rs s)"
proof (induction rs s rule: progress_worker.induct)
  case (4 m rest s)
  have "pool_ok (snd (progress_body m s))"
    using "4.prems" pool_ok_frame [of "snd (progress_body m s)" s]
    by (simp add: progress_body_def Let_def set_cancel_def split: option.splits prod.splits)
  then show ?case using "4.IH" by simp
qed simp_all

lemma pool_ok_finished: "pool_ok s \<Longrightarrow> pool_ok (finished_worker rs s)"
proof (induction rs s rule: finished_worker.induct)
  case (4 m rest s)
  have "pool_ok (snd (finished_body m s))"
    using "4.prems" pool_ok_frame [of "snd (finished_body m s)" s]
    by (simp add: finished_body_def split: option.splits prod.splits)
  then show ?case using "4.IH" by simp
qed simp_all

end
